theory Spec2Isabelle
  imports Main "HOL-Library.Sublist"
begin

section \<open>File names\<close>

text \<open>
  A file name is the list of the bytes of its UTF-8 encoding. Searching for a dot,
  testing a leading dot, slicing at a dot and comparing names give the same answers on
  the bytes as on the characters, because the byte of an ASCII character occurs in no
  longer sequence.

  \<open>str.lower\<close> is the exception: it follows the Unicode tables of the interpreter,
  which are not part of this development. \<open>lower\<close> is \<open>str.lower\<close> on ASCII text
  (\<open>A\<close>..\<open>Z\<close>, the codes 65..90, become \<open>a\<close>..\<open>z\<close>) and leaves every other byte
  as it is, so it agrees with \<open>str.lower\<close> exactly on the names that \<open>ascii\<close> accepts.
\<close>

definition lower_char :: "char \<Rightarrow> char" where
  "lower_char c =
     (let n = (of_char c :: nat) in if 65 \<le> n \<and> n \<le> 90 then char_of (n + 32) else c)"

definition lower :: "string \<Rightarrow> string" where
  "lower s = map lower_char s"


text \<open>\<open>name.startswith(".")\<close>\<close>

definition startswith_dot :: "string \<Rightarrow> bool" where
  "startswith_dot s = (case s of [] \<Rightarrow> False | c # _ \<Rightarrow> c = CHR ''.'')"

text \<open>\<open>s.rfind(c)\<close>: the highest index of \<open>c\<close> in \<open>s\<close>, or \<open>-1\<close>.\<close>

definition rfind :: "string \<Rightarrow> char \<Rightarrow> int" where
  "rfind s c =
     (if c \<in> set s
      then int (length s) - 1 - int (length (takeWhile (\<lambda>x. x \<noteq> c) (rev s)))
      else - 1)"

text \<open>
  \<open>PurePath.suffix\<close> and \<open>PurePath.stem\<close> as pathlib computes them up to CPython 3.13:
  \<^verbatim>\<open>
  i = name.rfind('.')
  if 0 < i < len(name) - 1: return name[i:]      # stem: name[:i]
  else:                     return ''            # stem: name
  \<close>
  A leading dot and a trailing dot start no suffix.
\<close>

definition path_suffix :: "string \<Rightarrow> string" where
  "path_suffix nm =
     (let i = rfind nm (CHR ''.'')
      in if 0 < i \<and> i < int (length nm) - 1 then drop (nat i) nm else [])"

definition stem :: "string \<Rightarrow> string" where
  "stem nm =
     (let i = rfind nm (CHR ''.'')
      in if 0 < i \<and> i < int (length nm) - 1 then take (nat i) nm else nm)"

text \<open>\<open>s.lstrip(".")\<close>\<close>

definition lstrip_dot :: "string \<Rightarrow> string" where
  "lstrip_dot s = dropWhile (\<lambda>c. c = CHR ''.'') s"

text \<open>
  The extension key, \<open>path.suffix.lower().lstrip(".") or "no_ext"\<close>, as \<open>move_file\<close>
  and the in-place rule of \<open>iter_files\<close> both compute it.
\<close>

definition ext_key :: "string \<Rightarrow> string" where
  "ext_key nm =
     (let e = lstrip_dot (lower (path_suffix nm)) in if e = [] then ''no_ext'' else e)"

text \<open>\<open>str(counter)\<close> for a counter that is never negative: its decimal digits.\<close>

definition digit :: "nat \<Rightarrow> char" where
  "digit d = ''0123456789'' ! d"

fun str_nat :: "nat \<Rightarrow> string" where
  "str_nat n = (if n < 10 then [digit n] else str_nat (n div 10) @ [digit (n mod 10)])"

declare str_nat.simps [simp del]

text \<open>The f-string \<open>f"{stem} ({counter}){suffix}"\<close> of \<open>safe_destination\<close>.\<close>

definition bumped_name :: "string \<Rightarrow> string \<Rightarrow> nat \<Rightarrow> string" where
  "bumped_name st sf counter = st @ '' ('' @ str_nat counter @ '')'' @ sf"

definition DEFAULT_CODE_EXTENSIONS :: "string list" where
  "DEFAULT_CODE_EXTENSIONS =
     [''.py'', ''.ipynb'', ''.pyc'', ''.pyo'',
      ''.html'', ''.css'', ''.js'', ''.jsx'', ''.ts'', ''.tsx'',
      ''.java'', ''.c'', ''.cpp'', ''.h'', ''.hpp'', ''.cs'',
      ''.sh'', ''.bash'', ''.ps1'', ''.bat'',
      ''.json'', ''.yaml'', ''.yml'', ''.xml'',
      ''.go'', ''.rs'', ''.rb'', ''.php'', ''.swift'', ''.kt'', ''.kts'']"

section \<open>Paths\<close>

text \<open>
  A path is the list of its components below the filesystem root, as \<open>Path.parts\<close>
  gives them without the anchor; \<open>[]\<close> is the root directory and \<open>Path(".")\<close>
  relative to a directory adds no component. No path of the model leads through a
  symbolic link to another place, so \<open>Path.resolve\<close> only removes \<open>..\<close> components,
  each with the component before it.
\<close>

type_synonym path = "string list"

definition path_name :: "path \<Rightarrow> string" where
  "path_name p = (if p = [] then [] else last p)"

definition parent :: "path \<Rightarrow> path" where
  "parent p = butlast p"

definition resolve :: "path \<Rightarrow> path" where
  "resolve p = foldl (\<lambda>acc c. if c = ''..'' then butlast acc else acc @ [c]) [] p"

text \<open>\<open>candidate.relative_to(other)\<close> raises \<open>ValueError\<close> unless the components of
  \<open>other\<close> are the first components of \<open>candidate\<close>.\<close>

definition is_relative_to_path :: "path \<Rightarrow> path \<Rightarrow> bool" where
  "is_relative_to_path candidate other = prefix other candidate"

section \<open>The filesystem\<close>

text \<open>
  The filesystem is a table from paths to nodes; the order of the table is the order
  in which \<open>os.scandir\<close> lists a directory. A regular file carries its content.
  \<open>Special\<close> is a socket, a pipe or a device. \<open>Link\<close> is a symbolic link whose target
  is missing: its directory lists it, \<open>os.mkdir\<close> and \<open>os.rename\<close> find an entry at
  its path, but \<open>Path.exists\<close>, \<open>Path.is_dir\<close> and \<open>Path.is_file\<close> follow the link
  and answer \<open>False\<close>. Symbolic links that lead somewhere are outside the model.
\<close>

datatype node = File string | Dir | Special | Link

type_synonym filesystem = "(path \<times> node) list"

definition lookup :: "filesystem \<Rightarrow> path \<Rightarrow> node option" where
  "lookup fs p = (if p = [] then Some Dir else map_of fs p)"

text \<open>\<open>Path.exists()\<close>\<close>

definition path_exists :: "filesystem \<Rightarrow> path \<Rightarrow> bool" where
  "path_exists fs p =
     (case lookup fs p of None \<Rightarrow> False | Some Link \<Rightarrow> False | Some _ \<Rightarrow> True)"

definition is_dir :: "filesystem \<Rightarrow> path \<Rightarrow> bool" where
  "is_dir fs p = (lookup fs p = Some Dir)"

definition is_file :: "filesystem \<Rightarrow> path \<Rightarrow> bool" where
  "is_file fs p = (case lookup fs p of Some (File _) \<Rightarrow> True | _ \<Rightarrow> False)"

text \<open>
  A well-formed table names every path once, has no \<open>..\<close> component, and holds every
  entry in a directory.
\<close>

definition wf_fs :: "filesystem \<Rightarrow> bool" where
  "wf_fs fs =
     (distinct (map fst fs) \<and>
      list_all (\<lambda>(p, n). p \<noteq> [] \<and> ''..'' \<notin> set p \<and> is_dir fs (butlast p)) fs)"


datatype error =
    SystemExit
  | FileExistsError path
  | FileNotFoundError path
  | NotADirectoryError path
  | ShutilError path

text \<open>
  \<open>os.mkdir(p)\<close>. An entry at \<open>p\<close>, of whatever kind, is \<open>EEXIST\<close>. Otherwise the
  directories above \<open>p\<close> are followed from the top: the first one that is not a
  directory decides, \<open>ENOTDIR\<close> if it is a file and \<open>ENOENT\<close> if it is missing or a
  link to nothing. The error names the path that was asked for.
\<close>

definition os_mkdir :: "filesystem \<Rightarrow> path \<Rightarrow> (error + unit) \<times> filesystem" where
  "os_mkdir fs p =
     (if lookup fs p \<noteq> None then (Inl (FileExistsError p), fs)
      else case find (\<lambda>q. lookup fs q \<noteq> Some Dir) (prefixes (butlast p)) of
             None \<Rightarrow> (Inr (), fs @ [(p, Dir)])
           | Some q \<Rightarrow>
               (case lookup fs q of
                  Some (File c) \<Rightarrow> (Inl (NotADirectoryError p), fs)
                | Some Special \<Rightarrow> (Inl (NotADirectoryError p), fs)
                | _ \<Rightarrow> (Inl (FileNotFoundError p), fs)))"

text \<open>
  \<open>Path.mkdir(parents=True, exist_ok=True)\<close>, as pathlib writes it:
  \<^verbatim>\<open>
  try: os.mkdir(self)
  except FileNotFoundError:
      if self.parent == self: raise
      self.parent.mkdir(parents=True, exist_ok=True)
      self.mkdir(parents=False, exist_ok=True)
  except OSError:
      if not self.is_dir(): raise
  \<close>
\<close>

definition mkdir_leaf :: "filesystem \<Rightarrow> path \<Rightarrow> (error + unit) \<times> filesystem" where
  "mkdir_leaf fs p =
     (case os_mkdir fs p of
        (Inr u, fs') \<Rightarrow> (Inr (), fs')
      | (Inl e, fs') \<Rightarrow> if is_dir fs' p then (Inr (), fs') else (Inl e, fs'))"

function mkdir_p :: "filesystem \<Rightarrow> path \<Rightarrow> (error + unit) \<times> filesystem" where
  "mkdir_p fs p =
     (case os_mkdir fs p of
        (Inr u, fs') \<Rightarrow> (Inr (), fs')
      | (Inl (FileNotFoundError q), fs') \<Rightarrow>
          if p = [] then (Inl (FileNotFoundError q), fs')
          else (case mkdir_p fs' (butlast p) of
                  (Inl e, fs'') \<Rightarrow> (Inl e, fs'')
                | (Inr u, fs'') \<Rightarrow> mkdir_leaf fs'' p)
      | (Inl e, fs') \<Rightarrow> if is_dir fs' p then (Inr (), fs') else (Inl e, fs'))"
  by pat_completeness auto
termination
  by (relation "measure (\<lambda>(fs, p). length p)") auto

declare mkdir_p.simps [simp del]

text \<open>
  \<open>shutil.move(src, dst)\<close> on one device: a destination that is a directory receives
  the source under its own name, unless \<open>os.path.exists\<close> finds something there;
  otherwise the source is renamed, a directory with everything below it, a file over
  any entry already at the destination that is not a directory.
\<close>

definition os_rename :: "filesystem \<Rightarrow> path \<Rightarrow> path \<Rightarrow> (error + unit) \<times> filesystem" where
  "os_rename fs src dst =
     (case lookup fs src of
        None \<Rightarrow> (Inl (FileNotFoundError src), fs)
      | Some Dir \<Rightarrow>
          if src = [] \<or> prefix src dst \<or> lookup fs dst \<noteq> None \<or> \<not> is_dir fs (butlast dst)
          then (Inl (ShutilError dst), fs)
          else (Inr (),
                map (\<lambda>(p, n). if prefix src p then (dst @ drop (length src) p, n) else (p, n)) fs)
      | Some n \<Rightarrow>
          if \<not> is_dir fs (butlast dst) then (Inl (FileNotFoundError dst), fs)
          else (Inr (), filter (\<lambda>(p, m). p \<noteq> src \<and> p \<noteq> dst) fs @ [(dst, n)]))"

definition shutil_move :: "filesystem \<Rightarrow> path \<Rightarrow> path \<Rightarrow> (error + unit) \<times> filesystem" where
  "shutil_move fs src dst =
     (if is_dir fs dst
      then (let real_dst = dst @ [path_name src]
            in if path_exists fs real_dst then (Inl (ShutilError real_dst), fs)
               else os_rename fs src real_dst)
      else os_rename fs src dst)"

text \<open>
  \<open>os.walk(top)\<close>, top-down: it yields \<open>(dirpath, dirnames, filenames)\<close> for \<open>top\<close>,
  lets the consumer edit \<open>dirnames\<close> in place before it goes on, and then walks the
  directories still listed, in order. A \<open>top\<close> that cannot be listed yields nothing.
\<close>

definition entries :: "filesystem \<Rightarrow> path \<Rightarrow> (string \<times> node) list" where
  "entries fs d = [(last p, n). (p, n) \<leftarrow> fs, p \<noteq> [] \<and> butlast p = d]"

definition dirnames :: "filesystem \<Rightarrow> path \<Rightarrow> string list" where
  "dirnames fs d = [x. (x, n) \<leftarrow> entries fs d, n = Dir]"

definition filenames :: "filesystem \<Rightarrow> path \<Rightarrow> string list" where
  "filenames fs d = [x. (x, n) \<leftarrow> entries fs d, n \<noteq> Dir]"

fun max_depth :: "filesystem \<Rightarrow> nat" where
  "max_depth [] = 0"
| "max_depth ((p, n) # fs) = max (length p) (max_depth fs)"

lemma max_depth_ge: "(p, n) \<in> set fs \<Longrightarrow> length p \<le> max_depth fs"
  by (induction fs) auto

lemma is_dir_depth: "is_dir fs p \<Longrightarrow> length p \<le> max_depth fs"
  by (auto simp: is_dir_def lookup_def dest: map_of_SomeD max_depth_ge split: if_splits)

function os_walk ::
  "filesystem \<Rightarrow> (path \<Rightarrow> string list \<Rightarrow> string list) \<Rightarrow> path
     \<Rightarrow> (path \<times> string list \<times> string list) list" where
  "os_walk fs edit topdir =
     (if \<not> is_dir fs topdir then []
      else (topdir, edit topdir (dirnames fs topdir), filenames fs topdir) #
           concat (map (\<lambda>d. os_walk fs edit (topdir @ [d])) (edit topdir (dirnames fs topdir))))"
  by pat_completeness auto
termination
  by (relation "measure (\<lambda>(fs, edit, topdir). Suc (max_depth fs) - length topdir)")
     (auto dest: is_dir_depth)

declare os_walk.simps [simp del]

section \<open>The sorter\<close>

subsection \<open>Configuration\<close>

text \<open>
  \<open>dest_dir\<close> is a path or a string; \<open>Path(dest_dir)\<close> is either absolute or relative
  to the root. The root is given by its absolute components.
\<close>

datatype dest_spec = Absolute path | Relative path

record SortConfig =
  root :: path
  dest_dir :: dest_spec
  include_dotfiles :: bool
  include_code :: bool
  dry_run :: bool
  interactive :: bool

definition root_path :: "SortConfig \<Rightarrow> path" where
  "root_path config = resolve (root config)"

definition destination_root :: "SortConfig \<Rightarrow> path" where
  "destination_root config =
     (case dest_dir config of
        Absolute p \<Rightarrow> resolve p
      | Relative r \<Rightarrow> resolve (root_path config @ r))"

subsection \<open>What the program prints, and the state it runs in\<close>

datatype event =
    Skipping path
  | DryRun path path
  | Moving path path
  | NoFiles
  | AboutToMove nat
  | Done bool
  | Destination path

record world =
  disk :: filesystem
  printed :: "event list"

definition say :: "event \<Rightarrow> world \<Rightarrow> world" where
  "say e w = w\<lparr>printed := printed w @ [e]\<rparr>"

subsection \<open>\<open>iter_files\<close>\<close>

text \<open>The edit of \<open>dirnames\<close> that removes the destination tree from the walk.\<close>

definition prune_dirnames :: "path \<Rightarrow> bool \<Rightarrow> path \<Rightarrow> string list \<Rightarrow> string list" where
  "prune_dirnames dest_root dest_is_root current_dir dirs =
     (if \<not> dest_is_root
      then [d \<leftarrow> dirs.
              \<not> is_relative_to_path (resolve (current_dir @ [d])) dest_root
              \<and> resolve (current_dir @ [d]) \<noteq> dest_root]
      else dirs)"

text \<open>The body of the loop over \<open>filenames\<close>: each \<open>continue\<close> is a \<open>False\<close>.\<close>

definition keep_file ::
  "filesystem \<Rightarrow> path \<Rightarrow> path \<Rightarrow> bool \<Rightarrow> bool \<Rightarrow> bool \<Rightarrow> string list \<Rightarrow> path \<Rightarrow> bool" where
  "keep_file fs root_dir dest_root dest_is_root with_dotfiles with_code code_extensions p =
     (if \<not> with_dotfiles \<and> startswith_dot (path_name p) then False
      else if \<not> with_code \<and> lower (path_suffix (path_name p)) \<in> set code_extensions then False
      else if resolve (parent p) = root_dir \<and> lower (path_name p) = ''readme.md'' then False
      else if \<not> dest_is_root \<and> is_relative_to_path (resolve p) dest_root then False
      else if dest_is_root
              \<and> resolve (parent p) = resolve (dest_root @ [ext_key (path_name p)]) then False
      else is_file fs p)"

text \<open>\<open>code_extensions or DEFAULT_CODE_EXTENSIONS\<close>: \<open>None\<close> and the empty set are both
  replaced by the default.\<close>

definition extensions_or_default :: "string list option \<Rightarrow> string list" where
  "extensions_or_default code_exts =
     (case code_exts of
        None \<Rightarrow> DEFAULT_CODE_EXTENSIONS
      | Some s \<Rightarrow> if s = [] then DEFAULT_CODE_EXTENSIONS else s)"

definition iter_files ::
  "filesystem \<Rightarrow> path \<Rightarrow> path \<Rightarrow> bool \<Rightarrow> bool \<Rightarrow> string list option \<Rightarrow> path list" where
  "iter_files fs root0 dest0 with_dotfiles with_code code_exts =
     (let root_dir = resolve root0;
          dest_root = resolve dest0;
          code_extensions = extensions_or_default code_exts;
          dest_is_root = (dest_root = root_dir)
      in concat
           (map (\<lambda>(current_dir, dirs, names).
                   filter (keep_file fs root_dir dest_root dest_is_root
                             with_dotfiles with_code code_extensions)
                     (map (\<lambda>nm. current_dir @ [nm]) names))
              (os_walk fs (prune_dirnames dest_root dest_is_root) root_dir)))"

subsection \<open>\<open>safe_destination\<close>\<close>

lemma digit_inj: "a < 10 \<Longrightarrow> b < 10 \<Longrightarrow> digit a = digit b \<Longrightarrow> a = b"
proof -
  assume a: "a < 10" and b: "b < 10" and e: "digit a = digit b"
  have d: "distinct ''0123456789''" by simp
  have "a < length ''0123456789''" "b < length ''0123456789''" using a b by simp_all
  with d e show "a = b" unfolding digit_def by (simp only: nth_eq_iff_index_eq)
qed

lemma str_nat_small: "n < 10 \<Longrightarrow> str_nat n = [digit n]"
  by (subst str_nat.simps) simp

lemma str_nat_big: "\<not> n < 10 \<Longrightarrow> str_nat n = str_nat (n div 10) @ [digit (n mod 10)]"
  by (subst str_nat.simps) simp

lemma str_nat_nonempty: "str_nat n \<noteq> []"
  by (cases "n < 10") (simp_all add: str_nat_small str_nat_big)

lemma str_nat_inj: "str_nat a = str_nat b \<Longrightarrow> a = b"
proof (induction a arbitrary: b rule: str_nat.induct)
  case (1 n)
  show ?case
  proof (cases "n < 10")
    case True
    show ?thesis
    proof (cases "b < 10")
      case True
      with \<open>n < 10\<close> "1.prems" show ?thesis
        by (auto simp: str_nat_small dest: digit_inj)
    next
      case False
      with \<open>n < 10\<close> "1.prems" have "[digit n] = str_nat (b div 10) @ [digit (b mod 10)]"
        by (simp add: str_nat_small str_nat_big)
      then show ?thesis using str_nat_nonempty [of "b div 10"] by simp
    qed
  next
    case False
    show ?thesis
    proof (cases "b < 10")
      case True
      with \<open>\<not> n < 10\<close> "1.prems" have "str_nat (n div 10) @ [digit (n mod 10)] = [digit b]"
        by (simp add: str_nat_small str_nat_big)
      then show ?thesis using str_nat_nonempty [of "n div 10"] by simp
    next
      case bf: False
      with False "1.prems"
      have "str_nat (n div 10) @ [digit (n mod 10)] = str_nat (b div 10) @ [digit (b mod 10)]"
        by (simp add: str_nat_big)
      then have e1: "str_nat (n div 10) = str_nat (b div 10)"
        and e2: "digit (n mod 10) = digit (b mod 10)" by simp_all
      from "1.IH" [OF False e1] have "n div 10 = b div 10" .
      moreover have "n mod 10 = b mod 10" by (rule digit_inj [OF _ _ e2]) simp_all
      ultimately show ?thesis by (metis div_mult_mod_eq)
    qed
  qed
qed

lemma bumped_name_inj: "bumped_name st sf a = bumped_name st sf b \<Longrightarrow> a = b"
  by (auto simp: bumped_name_def dest: str_nat_inj)

lemma lookup_in_keys: "path_exists fs p \<Longrightarrow> p \<noteq> [] \<Longrightarrow> p \<in> fst ` set fs"
  by (auto simp: path_exists_def lookup_def dest!: map_of_SomeD intro: rev_image_eqI
      split: option.splits)

lemma finite_bumped: "finite {k. path_exists fs (d @ [bumped_name st sf k])}"
proof -
  have "inj (\<lambda>k. d @ [bumped_name st sf k])"
    by (auto intro!: injI dest: bumped_name_inj)
  then have "finite ((\<lambda>k. d @ [bumped_name st sf k]) -` (fst ` set fs))"
    by (intro finite_vimageI) simp_all
  moreover have "{k. path_exists fs (d @ [bumped_name st sf k])}
      \<subseteq> (\<lambda>k. d @ [bumped_name st sf k]) -` (fst ` set fs)"
    by (auto dest: lookup_in_keys)
  ultimately show ?thesis by (rule rev_finite_subset)
qed

text \<open>The \<open>while True\<close> loop of \<open>safe_destination\<close>, from the counter it has reached.\<close>

function bump_loop :: "filesystem \<Rightarrow> path \<Rightarrow> string \<Rightarrow> string \<Rightarrow> nat \<Rightarrow> path" where
  "bump_loop fs bucket_dir st sf counter =
     (if \<not> path_exists fs (bucket_dir @ [bumped_name st sf counter])
      then bucket_dir @ [bumped_name st sf counter]
      else bump_loop fs bucket_dir st sf (counter + 1))"
  by pat_completeness auto
termination
proof (relation "measure (\<lambda>(fs, d, st, sf, c).
          card {k. c \<le> k \<and> path_exists fs (d @ [bumped_name st sf k])})", goal_cases)
  case 1
  show ?case by simp
next
  case (2 fs d st sf c)
  let ?A = "\<lambda>c. {k. c \<le> k \<and> path_exists fs (d @ [bumped_name st sf k])}"
  have fin: "finite (?A c)"
    by (rule finite_subset [OF _ finite_bumped [of fs d st sf]]) auto
  have "c \<in> ?A c" using 2 by simp
  moreover have "c \<notin> ?A (c + 1)" by simp
  moreover have "?A (c + 1) \<subseteq> ?A c" by auto
  ultimately have "?A (c + 1) \<subset> ?A c" by blast
  with fin have "card (?A (c + 1)) < card (?A c)" by (rule psubset_card_mono)
  then show ?case by simp
qed

declare bump_loop.simps [simp del]

definition safe_destination :: "filesystem \<Rightarrow> path \<Rightarrow> string \<Rightarrow> path" where
  "safe_destination fs bucket_dir filename =
     (let candidate = bucket_dir @ [filename]
      in if \<not> path_exists fs candidate then candidate
         else bump_loop fs bucket_dir (stem (path_name candidate))
                (path_suffix (path_name candidate)) 1)"

subsection \<open>\<open>move_file\<close> and \<open>sort_files\<close>\<close>

definition move_file :: "path \<Rightarrow> path \<Rightarrow> bool \<Rightarrow> world \<Rightarrow> (error + path) \<times> world" where
  "move_file src dest_root dry w =
     (let ext = ext_key (path_name src);
          dest_dir = dest_root @ [ext]
      in case mkdir_p (disk w) dest_dir of
           (Inl e, fs1) \<Rightarrow> (Inl e, w\<lparr>disk := fs1\<rparr>)
         | (Inr u, fs1) \<Rightarrow>
             if resolve (parent src) = resolve dest_dir
             then (Inr src, say (Skipping src) (w\<lparr>disk := fs1\<rparr>))
             else (let dest = safe_destination fs1 dest_dir (path_name src)
                   in if dry then (Inr dest, say (DryRun src dest) (w\<lparr>disk := fs1\<rparr>))
                      else (case shutil_move fs1 src dest of
                              (Inl e, fs2) \<Rightarrow> (Inl e, say (Moving src dest) (w\<lparr>disk := fs2\<rparr>))
                            | (Inr u, fs2) \<Rightarrow>
                                (Inr dest, say (Moving src dest) (w\<lparr>disk := fs2\<rparr>)))))"

text \<open>The loop \<open>for path in files: move_file(path, dest_root, dry_run=...)\<close>; an exception
  ends it.\<close>

fun move_all :: "path list \<Rightarrow> path \<Rightarrow> bool \<Rightarrow> world \<Rightarrow> (error + unit) \<times> world" where
  "move_all [] dest_root dry w = (Inr (), w)"
| "move_all (p # ps) dest_root dry w =
     (case move_file p dest_root dry w of
        (Inl e, w') \<Rightarrow> (Inl e, w')
      | (Inr q, w') \<Rightarrow> move_all ps dest_root dry w')"

definition sort_files :: "SortConfig \<Rightarrow> world \<Rightarrow> (error + path list) \<times> world" where
  "sort_files config w =
     (let root_dir = root_path config;
          dest_root = destination_root config
      in if \<not> path_exists (disk w) root_dir \<or> \<not> is_dir (disk w) root_dir
         then (Inl SystemExit, w)
         else (case mkdir_p (disk w) dest_root of
                 (Inl e, fs1) \<Rightarrow> (Inl e, w\<lparr>disk := fs1\<rparr>)
               | (Inr u, fs1) \<Rightarrow>
                   (let files = iter_files fs1 root_dir dest_root
                                  (include_dotfiles config) (include_code config) None
                    in if files = [] then (Inr [], say NoFiles (w\<lparr>disk := fs1\<rparr>))
                       else (let w1 = (if \<not> dry_run config \<and> \<not> interactive config
                                       then say (AboutToMove (length files)) (w\<lparr>disk := fs1\<rparr>)
                                       else w\<lparr>disk := fs1\<rparr>)
                             in case move_all files dest_root (dry_run config) w1 of
                                  (Inl e, w2) \<Rightarrow> (Inl e, w2)
                                | (Inr u, w2) \<Rightarrow>
                                    (Inr files,
                                     say (Destination dest_root)
                                       (say (Done (dry_run config)) w2))))))"

section \<open>Properties of the model\<close>

subsection \<open>Paths and extension keys\<close>

lemma resolve_snoc:
  "resolve (p @ [c]) = (if c = ''..'' then butlast (resolve p) else resolve p @ [c])"
  by (simp add: resolve_def)

lemma resolve_canonical: "''..'' \<notin> set p \<Longrightarrow> resolve p = p"
  by (induction p rule: rev_induct) (auto simp: resolve_snoc resolve_def)

lemma resolve_no_dotdot: "''..'' \<notin> set (resolve p)"
proof (induction p rule: rev_induct)
  case Nil
  show ?case by (simp add: resolve_def)
next
  case (snoc c p)
  then show ?case by (auto simp: resolve_snoc dest: in_set_butlastD)
qed

lemma resolve_idem: "resolve (resolve p) = resolve p"
  by (rule resolve_canonical [OF resolve_no_dotdot])

lemma ext_key_not_dotdot: "ext_key nm \<noteq> ''..''"
proof
  assume a: "ext_key nm = ''..''"
  let ?s = "lower (path_suffix nm)"
  from a have "lstrip_dot ?s = ''..''"
    by (auto simp: ext_key_def Let_def split: if_splits)
  then have "dropWhile (\<lambda>c. c = CHR ''.'') ?s = CHR ''.'' # ''.''"
    by (simp add: lstrip_dot_def)
  then show False by (metis (mono_tags, lifting) dropWhile_eq_Cons_conv)
qed

lemma rfind_leading_dot:
  assumes "CHR ''.'' \<notin> set rest"
  shows "rfind (CHR ''.'' # rest) (CHR ''.'') = 0"
proof -
  have "takeWhile (\<lambda>x. x \<noteq> CHR ''.'') (rev rest @ [CHR ''.'']) = rev rest"
    using assms by (subst takeWhile_append2) auto
  then show ?thesis by (simp add: rfind_def)
qed

lemma ext_key_leading_dot:
  "CHR ''.'' \<notin> set rest \<Longrightarrow> ext_key (CHR ''.'' # rest) = ''no_ext''"
  by (simp add: ext_key_def path_suffix_def rfind_leading_dot lower_def lstrip_dot_def)

lemma lower_char_dot: "lower_char c = CHR ''.'' \<longleftrightarrow> c = CHR ''.''"
proof
  assume a: "lower_char c = CHR ''.''"
  show "c = CHR ''.''"
  proof (cases "65 \<le> (of_char c :: nat) \<and> (of_char c :: nat) \<le> 90")
    case True
    with a have "char_of ((of_char c :: nat) + 32) = CHR ''.''"
      by (simp add: lower_char_def Let_def)
    then have "(of_char (char_of ((of_char c :: nat) + 32) :: char) :: nat) = of_char (CHR ''.'')"
      by simp
    then have "((of_char c :: nat) + 32) mod 256 = 46" by simp
    with True show ?thesis by simp
  next
    case False
    with a show ?thesis by (auto simp: lower_char_def Let_def)
  qed
next
  assume "c = CHR ''.''"
  then show "lower_char c = CHR ''.''" by (simp add: lower_char_def Let_def)
qed

text \<open>A suffix, when there is one, is a dot followed by at least one character and by
  no further dot.\<close>

lemma path_suffix_shape:
  assumes "path_suffix nm \<noteq> []"
  shows "\<exists>e. path_suffix nm = CHR ''.'' # e \<and> e \<noteq> [] \<and> CHR ''.'' \<notin> set e"
proof -
  let ?P = "\<lambda>x. x \<noteq> CHR ''.''"
  let ?tw = "takeWhile ?P (rev nm)" and ?dw = "dropWhile ?P (rev nm)"
  let ?i = "rfind nm (CHR ''.'')"
  from assms have c: "0 < ?i" "?i < int (length nm) - 1"
    and s: "path_suffix nm = drop (nat ?i) nm"
    by (auto simp: path_suffix_def Let_def split: if_splits)
  from c(1) have dot: "CHR ''.'' \<in> set nm" by (auto simp: rfind_def split: if_splits)
  then have i: "?i = int (length nm) - 1 - int (length ?tw)" by (simp add: rfind_def)
  from dot have dne: "?dw \<noteq> []" by (auto simp: dropWhile_eq_Nil_conv)
  then obtain x rest where dw: "?dw = x # rest" by (cases ?dw) auto
  from hd_dropWhile [OF dne] dw have x: "x = CHR ''.''" by simp
  define pre where "pre = rev rest"
  define post where "post = rev ?tw"
  have "rev ?dw @ rev ?tw = rev (?tw @ ?dw)" by (rule rev_append [symmetric])
  also have "\<dots> = rev (rev nm)" by (simp only: takeWhile_dropWhile_id)
  also have "\<dots> = nm" by (rule rev_rev_ident)
  finally have A: "rev ?dw @ rev ?tw = nm" .
  have B: "rev ?dw @ rev ?tw = pre @ [CHR ''.''] @ post"
    by (simp add: dw x pre_def post_def)
  from A [symmetric] B have nm: "nm = pre @ [CHR ''.''] @ post" by (rule trans)
  have lp: "length post = length ?tw" by (simp add: post_def)
  have "length nm = length pre + 1 + length post" by (subst nm) simp
  with i lp have ni: "nat ?i = length pre" by simp
  have "drop (length pre) nm = CHR ''.'' # post" by (subst nm) simp
  then have d: "drop (nat ?i) nm = CHR ''.'' # post" unfolding ni .
  have "CHR ''.'' \<notin> set post" unfolding post_def by (auto dest: set_takeWhileD)
  moreover have "post \<noteq> []" using c(2) i lp by auto
  ultimately show ?thesis using s d by simp
qed


lemma rfind_append:
  assumes "c \<notin> set post"
  shows "rfind (pre @ c # post) c = int (length pre)"
proof -
  have "takeWhile (\<lambda>x. x \<noteq> c) (rev post @ c # rev pre) = rev post"
    using assms by (subst takeWhile_append2) auto
  then show ?thesis by (simp add: rfind_def)
qed

lemma rfind_none: "c \<notin> set s \<Longrightarrow> rfind s c = - 1"
  by (simp add: rfind_def)

lemma last_occurrence:
  assumes "c \<in> set s"
  shows "\<exists>pre post. s = pre @ c # post \<and> c \<notin> set post"
  using assms
proof (induction s rule: rev_induct)
  case Nil
  then show ?case by simp
next
  case (snoc x s)
  show ?case
  proof (cases "x = c")
    case True
    then show ?thesis by (intro exI [of _ s] exI [of _ "[]"]) simp
  next
    case False
    with snoc.prems have "c \<in> set s" by simp
    from snoc.IH [OF this] obtain pre post where "s = pre @ c # post" "c \<notin> set post" by blast
    with False show ?thesis by (intro exI [of _ pre] exI [of _ "post @ [x]"]) simp
  qed
qed

lemma path_suffix_append:
  assumes "a \<noteq> []" and "e \<noteq> []" and "CHR ''.'' \<notin> set e"
  shows "path_suffix (a @ CHR ''.'' # e) = CHR ''.'' # e"
    and "stem (a @ CHR ''.'' # e) = a"
  using assms by (simp_all add: path_suffix_def stem_def rfind_append Let_def)

lemma digit_not_dot: "d < 10 \<Longrightarrow> digit d \<noteq> CHR ''.''"
proof -
  assume "d < 10"
  then have "d \<in> {0, 1, 2, 3, 4, 5, 6, 7, 8, 9}" by auto
  then show ?thesis unfolding digit_def by (elim insertE) simp_all
qed

lemma str_nat_no_dot: "CHR ''.'' \<notin> set (str_nat n)"
proof (induction n rule: str_nat.induct)
  case (1 n)
  show ?case
  proof (cases "n < 10")
    case True
    then show ?thesis by (simp add: str_nat_small digit_not_dot [symmetric])
  next
    case False
    have "n mod 10 < 10" by simp
    then have "digit (n mod 10) \<noteq> CHR ''.''" by (rule digit_not_dot)
    with "1.IH" [OF False] False show ?thesis by (auto simp: str_nat_big)
  qed
qed

text \<open>Unless the name ends in a dot, the renamed file has the extension key of the
  name it was made from.\<close>

lemma ext_key_bumped:
  assumes "nm = [] \<or> last nm \<noteq> CHR ''.''"
  shows "ext_key (bumped_name (stem nm) (path_suffix nm) k) = ext_key nm"
proof -
  let ?t = "'' ('' @ str_nat k @ '')''"
  have tdot: "CHR ''.'' \<notin> set ?t" using str_nat_no_dot [of k] by simp
  have "path_suffix (bumped_name (stem nm) (path_suffix nm) k) = path_suffix nm"
  proof (cases "path_suffix nm = []")
    case False
    from path_suffix_shape [OF False] obtain e where
      e: "path_suffix nm = CHR ''.'' # e" "e \<noteq> []" "CHR ''.'' \<notin> set e" by blast
    have "bumped_name (stem nm) (path_suffix nm) k = (stem nm @ ?t) @ CHR ''.'' # e"
      by (simp add: bumped_name_def e(1))
    moreover have "path_suffix ((stem nm @ ?t) @ CHR ''.'' # e) = CHR ''.'' # e"
      by (rule path_suffix_append(1)) (use e in simp_all)
    ultimately show ?thesis by (simp add: e(1))
  next
    case True
    then have st: "stem nm = nm"
      by (auto simp: stem_def path_suffix_def Let_def split: if_splits)
    have b: "bumped_name (stem nm) (path_suffix nm) k = nm @ ?t"
      by (simp add: bumped_name_def st True)
    have "path_suffix (nm @ ?t) = []"
    proof (cases "CHR ''.'' \<in> set nm")
      case False
      with tdot have "CHR ''.'' \<notin> set (nm @ ?t)" by simp
      then have "rfind (nm @ ?t) (CHR ''.'') = - 1" by (rule rfind_none)
      then show ?thesis by (simp add: path_suffix_def)
    next
      case dot: True
      from last_occurrence [OF dot] obtain pre post where
        d: "nm = pre @ CHR ''.'' # post" "CHR ''.'' \<notin> set post" by blast
      from assms d have pn: "post \<noteq> []" by (cases post) auto
      from d(2) have r: "rfind nm (CHR ''.'') = int (length pre)"
        unfolding d(1) by (rule rfind_append)
      have "pre = []"
      proof (rule ccontr)
        assume "pre \<noteq> []"
        with r pn d(1) have "path_suffix nm \<noteq> []"
          by (simp add: path_suffix_def Let_def)
        with True show False by simp
      qed
      with d(1) have e: "nm @ ?t = [] @ CHR ''.'' # (post @ ?t)" by simp
      have "CHR ''.'' \<notin> set (post @ ?t)" using d(2) tdot by simp
      then have "rfind ([] @ CHR ''.'' # (post @ ?t)) (CHR ''.'') = int (length ([] :: string))"
        by (rule rfind_append)
      then have "rfind (nm @ ?t) (CHR ''.'') = 0" unfolding e by simp
      then show ?thesis by (simp add: path_suffix_def)
    qed
    with b True show ?thesis by simp
  qed
  then show ?thesis by (simp add: ext_key_def)
qed

subsection \<open>Creating directories\<close>

lemma lookup_Nil_path [simp]: "lookup fs [] = Some Dir"
  by (simp add: lookup_def)

lemma lookup_snoc:
  "lookup (fs @ [(p, n)]) q =
     (case lookup fs q of Some m \<Rightarrow> Some m | None \<Rightarrow> if q = p then Some n else None)"
  by (auto simp: lookup_def map_add_def split: option.splits)

lemma lookup_append_dirs:
  "lookup (fs @ map (\<lambda>q. (q, Dir)) ds) q =
     (case lookup fs q of Some m \<Rightarrow> Some m | None \<Rightarrow> if q \<in> set ds then Some Dir else None)"
proof -
  have "map_of (map (\<lambda>q. (q, Dir)) ds) q = (if q \<in> set ds then Some Dir else None)"
    by (induction ds) auto
  then show ?thesis
    by (auto simp: lookup_def map_add_def split: option.splits)
qed

lemma lookup_filter:
  "lookup (filter (\<lambda>(p, m). p \<noteq> a \<and> p \<noteq> b) fs) q =
     (if q = [] then Some Dir else if q = a \<or> q = b then None else lookup fs q)"
  by (induction fs) (auto simp: lookup_def)

lemma os_mkdir_cases:
  assumes "os_mkdir fs p = (r, fs')"
  shows "(fs' = fs \<and> (\<exists>e. r = Inl e)) \<or>
         (r = Inr () \<and> fs' = fs @ [(p, Dir)] \<and> lookup fs p = None \<and> is_dir fs (butlast p))"
proof (cases "lookup fs p \<noteq> None")
  case True
  with assms show ?thesis by (auto simp: os_mkdir_def)
next
  case False
  show ?thesis
  proof (cases "find (\<lambda>q. lookup fs q \<noteq> Some Dir) (prefixes (butlast p))")
    case None
    then have "\<forall>q\<in>set (prefixes (butlast p)). lookup fs q = Some Dir"
      by (simp add: find_None_iff)
    then have "is_dir fs (butlast p)" by (simp add: is_dir_def in_set_prefixes)
    with assms False None show ?thesis by (auto simp: os_mkdir_def)
  next
    case (Some q)
    with assms False show ?thesis
      by (auto simp: os_mkdir_def split: option.splits node.splits)
  qed
qed

lemma mkdir_leaf_cases:
  assumes "mkdir_leaf fs p = (r, fs')"
  shows "fs' = fs \<or>
         (r = Inr () \<and> fs' = fs @ [(p, Dir)] \<and> lookup fs p = None \<and> is_dir fs (butlast p))"
proof -
  obtain r0 f0 where o: "os_mkdir fs p = (r0, f0)" by force
  from os_mkdir_cases [OF o] assms o show ?thesis
    by (auto simp: mkdir_leaf_def split: if_splits sum.splits)
qed

lemma mkdir_p_shape:
  "mkdir_p fs p = (r, fs') \<Longrightarrow>
     \<exists>ds. fs' = fs @ map (\<lambda>q. (q, Dir)) ds \<and> (\<forall>q\<in>set ds. prefix q p \<and> lookup fs q = None)"
proof (induction fs p arbitrary: r fs' rule: mkdir_p.induct)
  case (1 fs p)
  obtain r0 f0 where o: "os_mkdir fs p = (r0, f0)" by force
  note c = os_mkdir_cases [OF o]
  show ?case
  proof (cases r0)
    case (Inr u)
    with c o "1.prems" have "fs' = fs @ map (\<lambda>q. (q, Dir)) [p]" and "lookup fs p = None"
      by (auto simp: mkdir_p.simps [of fs p])
    then show ?thesis by (intro exI [of _ "[p]"]) simp
  next
    case (Inl e)
    with c have f0: "f0 = fs" by auto
    show ?thesis
    proof (cases "(\<exists>q. e = FileNotFoundError q) \<and> p \<noteq> []")
      case True
      then obtain q where e: "e = FileNotFoundError q" and ne: "p \<noteq> []" by auto
      obtain r1 f1 where m: "mkdir_p fs (butlast p) = (r1, f1)" by force
      from "1.IH" [OF o [symmetric] Inl e ne, unfolded f0, OF m]
      obtain ds where ds: "f1 = fs @ map (\<lambda>q. (q, Dir)) ds"
        and pre: "\<forall>q\<in>set ds. prefix q (butlast p) \<and> lookup fs q = None" by auto
      have pre': "\<forall>q\<in>set ds. prefix q p \<and> lookup fs q = None"
        using pre by (metis prefix_order.trans prefixeq_butlast)
      show ?thesis
      proof (cases r1)
        case (Inl e1)
        with "1.prems" o f0 \<open>r0 = Inl e\<close> e ne m have "fs' = f1"
          by (simp add: mkdir_p.simps [of fs p])
        with ds pre' show ?thesis by blast
      next
        case (Inr u1)
        with "1.prems" o f0 \<open>r0 = Inl e\<close> e ne m have l: "mkdir_leaf f1 p = (r, fs')"
          by (simp add: mkdir_p.simps [of fs p])
        from mkdir_leaf_cases [OF l] show ?thesis
        proof
          assume "fs' = f1"
          with ds pre' show ?thesis by blast
        next
          assume a: "r = Inr () \<and> fs' = f1 @ [(p, Dir)] \<and> lookup f1 p = None
                       \<and> is_dir f1 (butlast p)"
          then have "lookup fs p = None"
            by (auto simp: ds lookup_append_dirs split: option.splits)
          moreover from a ds have "fs' = fs @ map (\<lambda>q. (q, Dir)) (ds @ [p])" by simp
          ultimately show ?thesis using pre' by (intro exI [of _ "ds @ [p]"]) auto
        qed
      qed
    next
      case False
      with "1.prems" o f0 Inl have "fs' = fs"
        by (cases e) (auto simp: mkdir_p.simps [of fs p] split: if_splits)
      then show ?thesis by (intro exI [of _ "[]"]) simp
    qed
  qed
qed

lemma mkdir_p_keeps:
  assumes "mkdir_p fs p = (r, fs')" and "lookup fs q = Some n"
  shows "lookup fs' q = Some n"
  using mkdir_p_shape [OF assms(1)] assms(2) by (auto simp: lookup_append_dirs)

lemma mkdir_p_new:
  assumes "mkdir_p fs p = (r, fs')" and "lookup fs' q = Some n"
  shows "lookup fs q = Some n \<or> (n = Dir \<and> prefix q p \<and> lookup fs q = None)"
  using mkdir_p_shape [OF assms(1)] assms(2)
  by (auto simp: lookup_append_dirs split: option.splits if_splits)

lemma mkdir_p_is_dir:
  assumes "mkdir_p fs p = (Inr u, fs')"
  shows "is_dir fs' p"
proof -
  obtain r0 f0 where o: "os_mkdir fs p = (r0, f0)" by force
  note c = os_mkdir_cases [OF o]
  have new: "\<And>g. lookup g p = None \<Longrightarrow> is_dir (g @ [(p, Dir)]) p"
    by (auto simp: is_dir_def lookup_snoc)
  show ?thesis
  proof (cases r0)
    case (Inr u0)
    with c o assms show ?thesis by (auto simp: mkdir_p.simps [of fs p] new)
  next
    case (Inl e)
    with c have f0: "f0 = fs" by auto
    show ?thesis
    proof (cases "(\<exists>q. e = FileNotFoundError q) \<and> p \<noteq> []")
      case True
      then obtain q where e: "e = FileNotFoundError q" and ne: "p \<noteq> []" by auto
      obtain r1 f1 where m: "mkdir_p fs (butlast p) = (r1, f1)" by force
      from assms o f0 Inl e ne m have l: "mkdir_leaf f1 p = (Inr u, fs')"
        by (cases r1) (auto simp: mkdir_p.simps [of fs p])
      obtain r2 f2 where o2: "os_mkdir f1 p = (r2, f2)" by force
      from os_mkdir_cases [OF o2] l o2 show ?thesis
        by (auto simp: mkdir_leaf_def new split: if_splits sum.splits)
    next
      case False
      with assms o f0 Inl show ?thesis
        by (cases e) (auto simp: mkdir_p.simps [of fs p] split: if_splits)
    qed
  qed
qed

lemma mkdir_p_existing: "is_dir fs p \<Longrightarrow> mkdir_p fs p = (Inr (), fs)"
  by (subst mkdir_p.simps) (simp add: os_mkdir_def is_dir_def)

subsection \<open>Moving a file and choosing its name\<close>

lemma shutil_move_file:
  assumes "lookup fs src = Some n" and "n \<noteq> Dir"
    and "\<not> path_exists fs dst" and "is_dir fs (butlast dst)"
  shows "shutil_move fs src dst =
           (Inr (), filter (\<lambda>(p, m). p \<noteq> src \<and> p \<noteq> dst) fs @ [(dst, n)])"
  using assms
  by (cases n)
     (auto simp: shutil_move_def os_rename_def is_dir_def path_exists_def
       split: option.splits node.splits)

lemma shutil_move_missing:
  assumes "lookup fs src = None" and "\<not> path_exists fs dst"
  shows "shutil_move fs src dst = (Inl (FileNotFoundError src), fs)"
  using assms
  by (auto simp: shutil_move_def os_rename_def is_dir_def path_exists_def
      split: option.splits node.splits)

lemma lookup_after_move:
  assumes "dst \<noteq> []"
  shows "lookup (filter (\<lambda>(p, m). p \<noteq> src \<and> p \<noteq> dst) fs @ [(dst, n)]) q =
     (if q = [] then Some Dir else if q = dst then Some n
      else if q = src then None else lookup fs q)"
  using assms by (auto simp: lookup_snoc lookup_filter split: option.splits)

lemma bump_loop_spec:
  "\<exists>n\<ge>c. bump_loop fs d st sf c = d @ [bumped_name st sf n]
       \<and> \<not> path_exists fs (d @ [bumped_name st sf n])
       \<and> (\<forall>k. c \<le> k \<and> k < n \<longrightarrow> path_exists fs (d @ [bumped_name st sf k]))"
proof (induction fs d st sf c rule: bump_loop.induct)
  case (1 fs d st sf c)
  show ?case
  proof (cases "path_exists fs (d @ [bumped_name st sf c])")
    case False
    then show ?thesis
      by (intro exI [of _ c]) (auto simp: bump_loop.simps [of fs d st sf c])
  next
    case True
    from "1.IH" True obtain n where n: "c + 1 \<le> n"
      "bump_loop fs d st sf (c + 1) = d @ [bumped_name st sf n]"
      "\<not> path_exists fs (d @ [bumped_name st sf n])"
      "\<forall>k. c + 1 \<le> k \<and> k < n \<longrightarrow> path_exists fs (d @ [bumped_name st sf k])"
      by auto
    have "\<forall>k. c \<le> k \<and> k < n \<longrightarrow> path_exists fs (d @ [bumped_name st sf k])"
    proof (intro allI impI)
      fix k assume "c \<le> k \<and> k < n"
      then have "k = c \<or> (c + 1 \<le> k \<and> k < n)" by auto
      with True n(4) show "path_exists fs (d @ [bumped_name st sf k])" by auto
    qed
    with n True show ?thesis
      by (intro exI [of _ n]) (simp add: bump_loop.simps [of fs d st sf c])
  qed
qed

lemma path_name_snoc [simp]: "path_name (d @ [x]) = x"
  by (simp add: path_name_def)

lemma safe_destination_cases:
  "(\<not> path_exists fs (d @ [nm]) \<and> safe_destination fs d nm = d @ [nm]) \<or>
   (path_exists fs (d @ [nm]) \<and>
    (\<exists>n\<ge>1. safe_destination fs d nm = d @ [bumped_name (stem nm) (path_suffix nm) n]
        \<and> \<not> path_exists fs (d @ [bumped_name (stem nm) (path_suffix nm) n])
        \<and> (\<forall>k. 1 \<le> k \<and> k < n \<longrightarrow>
               path_exists fs (d @ [bumped_name (stem nm) (path_suffix nm) k]))))"
  using bump_loop_spec [of 1 fs d "stem nm" "path_suffix nm"]
  by (auto simp: safe_destination_def Let_def)

lemma safe_destination_fresh: "\<not> path_exists fs (safe_destination fs d nm)"
  using safe_destination_cases [of fs d nm] by auto

lemma safe_destination_parent: "butlast (safe_destination fs d nm) = d"
  using safe_destination_cases [of fs d nm] by auto



subsection \<open>The walk\<close>

lemma os_walk_unfold:
  "is_dir fs t \<Longrightarrow> os_walk fs edit t =
     (t, edit t (dirnames fs t), filenames fs t) #
       concat (map (\<lambda>d. os_walk fs edit (t @ [d])) (edit t (dirnames fs t)))"
  by (subst os_walk.simps) simp

lemma os_walk_not_dir: "\<not> is_dir fs t \<Longrightarrow> os_walk fs edit t = []"
  by (subst os_walk.simps) simp

lemma os_walk_visited:
  "(t, ds, fns) \<in> set (os_walk fs edit topdir) \<Longrightarrow>
     prefix topdir t \<and> is_dir fs t \<and> ds = edit t (dirnames fs t) \<and> fns = filenames fs t"
proof (induction fs edit topdir rule: os_walk.induct)
  case (1 fs edit topdir)
  show ?case
  proof (cases "is_dir fs topdir")
    case False
    with "1.prems" show ?thesis by (simp add: os_walk_not_dir)
  next
    case True
    from "1.prems" have "(t, ds, fns) = (topdir, edit topdir (dirnames fs topdir), filenames fs topdir)
        \<or> (\<exists>d\<in>set (edit topdir (dirnames fs topdir)). (t, ds, fns) \<in> set (os_walk fs edit (topdir @ [d])))"
      by (auto simp: os_walk_unfold [OF True])
    then show ?thesis
    proof
      assume "(t, ds, fns) = (topdir, edit topdir (dirnames fs topdir), filenames fs topdir)"
      with True show ?thesis by simp
    next
      assume "\<exists>d\<in>set (edit topdir (dirnames fs topdir)). (t, ds, fns) \<in> set (os_walk fs edit (topdir @ [d]))"
      then obtain d where d: "d \<in> set (edit topdir (dirnames fs topdir))"
        and m: "(t, ds, fns) \<in> set (os_walk fs edit (topdir @ [d]))" by blast
      from "1.IH" [OF _ d m] True have "prefix (topdir @ [d]) t \<and> is_dir fs t
          \<and> ds = edit t (dirnames fs t) \<and> fns = filenames fs t" by simp
      then show ?thesis by (auto dest: append_prefixD)
    qed
  qed
qed

lemma os_walk_invariant:
  assumes "\<And>t ds d. Q t \<Longrightarrow> d \<in> set (edit t ds) \<Longrightarrow> Q (t @ [d])"
    and "Q topdir"
    and "(t, ds, fns) \<in> set (os_walk fs edit topdir)"
  shows "Q t"
  using assms
proof (induction fs edit topdir rule: os_walk.induct)
  case (1 fs edit topdir)
  show ?case
  proof (cases "is_dir fs topdir")
    case False
    with "1.prems" show ?thesis by (simp add: os_walk_not_dir)
  next
    case True
    from "1.prems"(3) have "t = topdir
        \<or> (\<exists>d\<in>set (edit topdir (dirnames fs topdir)). (t, ds, fns) \<in> set (os_walk fs edit (topdir @ [d])))"
      by (auto simp: os_walk_unfold [OF True])
    then show ?thesis
    proof
      assume "t = topdir"
      with "1.prems" show ?thesis by simp
    next
      assume "\<exists>d\<in>set (edit topdir (dirnames fs topdir)). (t, ds, fns) \<in> set (os_walk fs edit (topdir @ [d]))"
      then obtain d where d: "d \<in> set (edit topdir (dirnames fs topdir))"
        and m: "(t, ds, fns) \<in> set (os_walk fs edit (topdir @ [d]))" by blast
      from "1.prems"(1) [OF "1.prems"(2) d] have q: "Q (topdir @ [d])" .
      show ?thesis
        by (rule "1.IH" [OF _ d "1.prems"(1) q m]) (simp_all add: True)
    qed
  qed
qed

lemma os_walk_sub:
  "(t, ds, fns) \<in> set (os_walk fs edit topdir) \<Longrightarrow> d \<in> set ds \<Longrightarrow>
     set (os_walk fs edit (t @ [d])) \<subseteq> set (os_walk fs edit topdir)"
proof (induction fs edit topdir rule: os_walk.induct)
  case (1 fs edit topdir)
  show ?case
  proof (cases "is_dir fs topdir")
    case False
    with "1.prems" show ?thesis by (simp add: os_walk_not_dir)
  next
    case True
    from "1.prems" have "(t, ds, fns) = (topdir, edit topdir (dirnames fs topdir), filenames fs topdir)
        \<or> (\<exists>e\<in>set (edit topdir (dirnames fs topdir)). (t, ds, fns) \<in> set (os_walk fs edit (topdir @ [e])))"
      by (auto simp: os_walk_unfold [OF True])
    then show ?thesis
    proof
      assume "(t, ds, fns) = (topdir, edit topdir (dirnames fs topdir), filenames fs topdir)"
      with "1.prems"(2) show ?thesis by (auto simp: os_walk_unfold [OF True])
    next
      assume "\<exists>e\<in>set (edit topdir (dirnames fs topdir)). (t, ds, fns) \<in> set (os_walk fs edit (topdir @ [e]))"
      then obtain e where e: "e \<in> set (edit topdir (dirnames fs topdir))"
        and m: "(t, ds, fns) \<in> set (os_walk fs edit (topdir @ [e]))" by blast
      from "1.IH" [OF _ e m "1.prems"(2)] True
      have "set (os_walk fs edit (t @ [d])) \<subseteq> set (os_walk fs edit (topdir @ [e]))" by simp
      with e show ?thesis by (auto simp: os_walk_unfold [OF True])
    qed
  qed
qed

text \<open>Facts about a well-formed table.\<close>

lemma wf_fs_entry:
  assumes "wf_fs fs" and "(p, n) \<in> set fs"
  shows "p \<noteq> []" and "''..'' \<notin> set p" and "is_dir fs (butlast p)" and "lookup fs p = Some n"
  using assms by (auto simp: wf_fs_def list_all_iff lookup_def)

lemma lookup_entry: "lookup fs p = Some n \<Longrightarrow> p \<noteq> [] \<Longrightarrow> (p, n) \<in> set fs"
  by (auto simp: lookup_def dest: map_of_SomeD)

lemma wf_fs_parent:
  assumes "wf_fs fs" and "lookup fs p = Some n"
  shows "is_dir fs (butlast p)" and "''..'' \<notin> set p"
proof -
  show "is_dir fs (butlast p)"
  proof (cases "p = []")
    case True then show ?thesis by (simp add: is_dir_def)
  next
    case False
    with assms show ?thesis by (auto dest: lookup_entry wf_fs_entry)
  qed
  show "''..'' \<notin> set p"
  proof (cases "p = []")
    case True then show ?thesis by simp
  next
    case False
    with assms show ?thesis by (auto dest: lookup_entry wf_fs_entry)
  qed
qed

lemma in_dirnames:
  "d \<in> set (dirnames fs t) \<longleftrightarrow> (t @ [d], Dir) \<in> set fs"
  by (force simp: dirnames_def entries_def snoc_eq_iff_butlast)

lemma in_filenames:
  "x \<in> set (filenames fs t) \<longleftrightarrow> (\<exists>n. (t @ [x], n) \<in> set fs \<and> n \<noteq> Dir)"
  by (force simp: filenames_def entries_def snoc_eq_iff_butlast)

subsection \<open>What the walk reaches\<close>

lemma os_walk_complete:
  assumes wf: "wf_fs fs"
    and top: "is_dir fs topdir"
    and keep: "\<And>r d. prefix (r @ [d]) rel \<Longrightarrow> d \<in> set (dirnames fs (topdir @ r))
                 \<Longrightarrow> d \<in> set (edit (topdir @ r) (dirnames fs (topdir @ r)))"
    and dir: "is_dir fs (topdir @ rel)"
  shows "(topdir @ rel, edit (topdir @ rel) (dirnames fs (topdir @ rel)),
            filenames fs (topdir @ rel)) \<in> set (os_walk fs edit topdir)"
  using keep dir
proof (induction rel rule: rev_induct)
  case Nil
  show ?case by (simp add: os_walk_unfold [OF top])
next
  case (snoc x rel)
  let ?t = "topdir @ rel"
  from snoc.prems(2) have l: "lookup fs (?t @ [x]) = Some Dir" by (simp add: is_dir_def)
  then have e: "(?t @ [x], Dir) \<in> set fs" by (auto dest: lookup_entry)
  from wf_fs_parent(1) [OF wf l] have pd: "is_dir fs ?t" by (simp add: butlast_append)
  have "(?t, edit ?t (dirnames fs ?t), filenames fs ?t) \<in> set (os_walk fs edit topdir)"
  proof (rule snoc.IH [OF _ pd])
    fix r d assume "prefix (r @ [d]) rel" "d \<in> set (dirnames fs (topdir @ r))"
    then show "d \<in> set (edit (topdir @ r) (dirnames fs (topdir @ r)))"
      by (intro snoc.prems(1)) (auto intro: prefix_order.trans)
  qed
  moreover have "x \<in> set (edit ?t (dirnames fs ?t))"
    using e by (intro snoc.prems(1)) (simp_all add: in_dirnames)
  ultimately have "set (os_walk fs edit (?t @ [x])) \<subseteq> set (os_walk fs edit topdir)"
    by (rule os_walk_sub)
  moreover have "(?t @ [x], edit (?t @ [x]) (dirnames fs (?t @ [x])), filenames fs (?t @ [x]))
      \<in> set (os_walk fs edit (?t @ [x]))"
    using snoc.prems(2) by (simp add: os_walk_unfold)
  ultimately show ?case by auto
qed

lemma distinct_concat_map:
  assumes "distinct xs"
    and "\<And>x. x \<in> set xs \<Longrightarrow> distinct (f x)"
    and "\<And>x y. x \<in> set xs \<Longrightarrow> y \<in> set xs \<Longrightarrow> x \<noteq> y \<Longrightarrow> set (f x) \<inter> set (f y) = {}"
  shows "distinct (concat (map f xs))"
  using assms
proof (induction xs)
  case Nil
  show ?case by simp
next
  case (Cons a xs)
  have "distinct (concat (map f xs))"
    by (rule Cons.IH) (use Cons.prems in auto)
  moreover have "distinct (f a)" using Cons.prems(2) by simp
  moreover have "set (f a) \<inter> set (concat (map f xs)) = {}"
  proof -
    have "\<And>y. y \<in> set xs \<Longrightarrow> set (f a) \<inter> set (f y) = {}"
      using Cons.prems(1,3) by auto
    then show ?thesis by auto
  qed
  ultimately show ?case by simp
qed

lemma entries_alt:
  "entries fs t =
     map (\<lambda>(p, n). (last p, n)) (filter (\<lambda>(p, n). p \<noteq> [] \<and> butlast p = t) fs)"
  by (induction fs) (auto simp: entries_def split: if_splits)

lemma distinct_entries:
  assumes "distinct (map fst fs)"
  shows "distinct (map fst (entries fs t))"
proof -
  let ?g = "filter (\<lambda>(p, n). p \<noteq> [] \<and> butlast p = t) fs"
  have e: "map fst (entries fs t) = map last (map fst ?g)"
    by (simp add: entries_alt case_prod_beta comp_def)
  have d: "distinct (map fst ?g)" using assms by (simp add: distinct_map_filter)
  have "inj_on last (set (map fst ?g))"
    by (auto intro!: inj_onI) (metis append_butlast_last_id)
  with d show ?thesis unfolding e by (auto simp: distinct_map intro: comp_inj_on)
qed

lemma comprehension_alt:
  "concat (map (\<lambda>(x, n). if P n then [x] else []) es) = map fst (filter (\<lambda>(x, n). P n) es)"
  by (induction es) auto

lemma distinct_dirnames: "distinct (map fst fs) \<Longrightarrow> distinct (dirnames fs t)"
  unfolding dirnames_def comprehension_alt
  by (intro distinct_map_filter distinct_entries)

lemma distinct_filenames: "distinct (map fst fs) \<Longrightarrow> distinct (filenames fs t)"
  unfolding filenames_def comprehension_alt
  by (intro distinct_map_filter distinct_entries)

lemma os_walk_distinct:
  assumes "distinct (map fst fs)"
    and "\<And>t ds. distinct ds \<Longrightarrow> distinct (edit t ds)"
  shows "distinct (map fst (os_walk fs edit topdir))"
  using assms
proof (induction fs edit topdir rule: os_walk.induct)
  case (1 fs edit topdir)
  show ?case
  proof (cases "is_dir fs topdir")
    case False
    then show ?thesis by (simp add: os_walk_not_dir)
  next
    case True
    let ?ds = "edit topdir (dirnames fs topdir)"
    let ?f = "\<lambda>d. map fst (os_walk fs edit (topdir @ [d]))"
    have sub: "\<And>d t. t \<in> set (?f d) \<Longrightarrow> prefix (topdir @ [d]) t"
      by (auto dest: os_walk_visited)
    have dds: "distinct ?ds"
      by (rule "1.prems"(2)) (rule distinct_dirnames [OF "1.prems"(1)])
    have "distinct (concat (map ?f ?ds))"
    proof (rule distinct_concat_map [OF dds])
      fix d :: string assume "d \<in> set ?ds"
      then show "distinct (?f d)"
        by (intro "1.IH" "1.prems") (simp_all add: True)
    next
      fix d e :: string assume "d \<noteq> e"
      show "set (?f d) \<inter> set (?f e) = {}"
      proof (rule ccontr)
        assume "set (?f d) \<inter> set (?f e) \<noteq> {}"
        then obtain t where td: "t \<in> set (?f d)" and te: "t \<in> set (?f e)" by auto
        have "prefix (topdir @ [d]) t" "prefix (topdir @ [e]) t"
          by (rule sub [OF td], rule sub [OF te])
        with \<open>d \<noteq> e\<close> show False by (auto simp: prefix_def)
      qed
    qed
    moreover have "topdir \<notin> set (concat (map ?f ?ds))"
    proof
      assume "topdir \<in> set (concat (map ?f ?ds))"
      then obtain d where "topdir \<in> set (?f d)" by auto
      then have "prefix (topdir @ [d]) topdir" by (rule sub)
      then show False by (auto simp: prefix_def)
    qed
    ultimately show ?thesis
      by (simp add: os_walk_unfold [OF True] map_concat comp_def)
  qed
qed

subsection \<open>One call of \<open>move_file\<close>\<close>

lemma disk_say [simp]: "disk (say e w) = disk w"
  by (simp add: say_def)

lemma printed_say [simp]: "printed (say e w) = printed w @ [e]"
  by (simp add: say_def)

lemma move_file_cases:
  assumes "move_file src dest_root dry w = (r, w')"
  obtains
    (mkdir_failed) e fs1 where
      "mkdir_p (disk w) (dest_root @ [ext_key (path_name src)]) = (Inl e, fs1)"
      "r = Inl e" "disk w' = fs1" "printed w' = printed w"
  | (skipped) fs1 where
      "mkdir_p (disk w) (dest_root @ [ext_key (path_name src)]) = (Inr (), fs1)"
      "resolve (parent src) = resolve (dest_root @ [ext_key (path_name src)])"
      "r = Inr src" "disk w' = fs1" "printed w' = printed w @ [Skipping src]"
  | (planned) fs1 where
      "mkdir_p (disk w) (dest_root @ [ext_key (path_name src)]) = (Inr (), fs1)"
      "resolve (parent src) \<noteq> resolve (dest_root @ [ext_key (path_name src)])"
      "dry"
      "r = Inr (safe_destination fs1 (dest_root @ [ext_key (path_name src)]) (path_name src))"
      "disk w' = fs1"
      "printed w' = printed w @ [DryRun src
          (safe_destination fs1 (dest_root @ [ext_key (path_name src)]) (path_name src))]"
  | (moved) fs1 r2 fs2 where
      "mkdir_p (disk w) (dest_root @ [ext_key (path_name src)]) = (Inr (), fs1)"
      "resolve (parent src) \<noteq> resolve (dest_root @ [ext_key (path_name src)])"
      "\<not> dry"
      "shutil_move fs1 src
         (safe_destination fs1 (dest_root @ [ext_key (path_name src)]) (path_name src)) = (r2, fs2)"
      "r = (case r2 of Inl e \<Rightarrow> Inl e
            | Inr u \<Rightarrow> Inr (safe_destination fs1 (dest_root @ [ext_key (path_name src)])
                               (path_name src)))"
      "disk w' = fs2"
      "printed w' = printed w @ [Moving src
          (safe_destination fs1 (dest_root @ [ext_key (path_name src)]) (path_name src))]"
proof -
  obtain r1 fs1 where m: "mkdir_p (disk w) (dest_root @ [ext_key (path_name src)]) = (r1, fs1)"
    by force
  show ?thesis
  proof (cases r1)
    case (Inl e)
    with assms m show ?thesis
      by (intro mkdir_failed [of e fs1]) (auto simp: move_file_def Let_def)
  next
    case (Inr u)
    show ?thesis
    proof (cases "resolve (parent src) = resolve (dest_root @ [ext_key (path_name src)])")
      case True
      with assms m Inr show ?thesis
        by (intro skipped [of fs1]) (auto simp: move_file_def Let_def)
    next
      case ns: False
      show ?thesis
      proof (cases dry)
        case True
        with assms m Inr ns show ?thesis
          by (intro planned [of fs1]) (auto simp: move_file_def Let_def)
      next
        case False
        obtain r2 fs2 where s: "shutil_move fs1 src
            (safe_destination fs1 (dest_root @ [ext_key (path_name src)]) (path_name src)) = (r2, fs2)"
          by force
        with assms m Inr ns False show ?thesis
          by (intro moved [of fs1 r2 fs2]) (auto simp: move_file_def Let_def split: sum.splits)
      qed
    qed
  qed
qed

text \<open>A live move of a file that is there and not in its bucket yet.\<close>

lemma move_file_live:
  assumes mf: "move_file src dest_root False w = (Inr q, w')"
    and ns: "resolve (parent src) \<noteq> resolve (dest_root @ [ext_key (path_name src)])"
    and f: "lookup (disk w) src = Some n" "n \<noteq> Dir"
  shows "parent q = dest_root @ [ext_key (path_name src)]"
    and "\<not> path_exists (disk w) q"
    and "lookup (disk w') q = Some n"
    and "lookup (disk w') src = None"
    and "\<And>x m. x \<noteq> src \<Longrightarrow> lookup (disk w) x = Some m
           \<Longrightarrow> m \<noteq> Link \<or> parent x \<noteq> dest_root @ [ext_key (path_name src)]
           \<Longrightarrow> lookup (disk w') x = Some m"
    and "printed w' = printed w @ [Moving src q]"
    and "\<exists>fs1. mkdir_p (disk w) (dest_root @ [ext_key (path_name src)]) = (Inr (), fs1)
           \<and> q = safe_destination fs1 (dest_root @ [ext_key (path_name src)]) (path_name src)"
proof -
  let ?b = "dest_root @ [ext_key (path_name src)]"
  from mf ns obtain fs1 r2 fs2 where
    m: "mkdir_p (disk w) ?b = (Inr (), fs1)"
    and s: "shutil_move fs1 src (safe_destination fs1 ?b (path_name src)) = (r2, fs2)"
    and r: "Inr q = (case r2 of Inl e \<Rightarrow> Inl e
              | Inr u \<Rightarrow> Inr (safe_destination fs1 ?b (path_name src)))"
    and d: "disk w' = fs2"
    and p: "printed w' = printed w @ [Moving src (safe_destination fs1 ?b (path_name src))]"
    by (cases rule: move_file_cases) auto
  let ?q = "safe_destination fs1 ?b (path_name src)"
  have l1: "lookup fs1 src = Some n" by (rule mkdir_p_keeps [OF m f(1)])
  have fresh: "\<not> path_exists fs1 ?q" by (rule safe_destination_fresh)
  have par: "butlast ?q = ?b" by (rule safe_destination_parent)
  have bd: "is_dir fs1 (butlast ?q)" unfolding par by (rule mkdir_p_is_dir [OF m])
  from shutil_move_file [OF l1 f(2) fresh bd] s
  have r2: "r2 = Inr ()" and fs2: "fs2 = filter (\<lambda>(p, m). p \<noteq> src \<and> p \<noteq> ?q) fs1 @ [(?q, n)]"
    by simp_all
  from r r2 have q: "q = ?q" by simp
  have qne: "?q \<noteq> []" using par by (metis butlast.simps(1) snoc_eq_iff_butlast)
  have sne: "src \<noteq> []" using f by auto
  have sq: "src \<noteq> ?q" using ns par by (auto simp: parent_def)
  show "parent q = ?b" by (simp add: q parent_def par)
  show "\<not> path_exists (disk w) q"
  proof
    assume "path_exists (disk w) q"
    then obtain m' where "lookup (disk w) q = Some m'" "m' \<noteq> Link"
      by (auto simp: path_exists_def split: option.splits node.splits)
    from mkdir_p_keeps [OF m this(1)] this(2) fresh show False
      by (auto simp: q path_exists_def split: node.splits)
  qed
  show "lookup (disk w') q = Some n"
    by (simp add: d fs2 q lookup_after_move [OF qne] qne)
  show "lookup (disk w') src = None"
    by (simp add: d fs2 lookup_after_move [OF qne] sne sq)
  show "printed w' = printed w @ [Moving src q]" by (simp add: p q)
  from m q show "\<exists>fs1. mkdir_p (disk w) ?b = (Inr (), fs1)
           \<and> q = safe_destination fs1 ?b (path_name src)" by blast
  fix x m assume x: "x \<noteq> src" and lx: "lookup (disk w) x = Some m"
    and nl: "m \<noteq> Link \<or> parent x \<noteq> ?b"
  have l1x: "lookup fs1 x = Some m" by (rule mkdir_p_keeps [OF m lx])
  with fresh nl par have "x \<noteq> ?q"
    by (auto simp: path_exists_def parent_def split: node.splits)
  with x l1x show "lookup (disk w') x = Some m"
    by (auto simp: d fs2 lookup_after_move [OF qne])
qed

text \<open>Whatever \<open>move_file\<close> does with a file, dry or live, failing or not, every other
  path that was there keeps its node, unless it is a link to nothing in the bucket of
  the file, and the output only grows.\<close>

lemma move_file_frame:
  assumes mf: "move_file src dest_root dry w = (r, w')"
    and f: "lookup (disk w) src = Some n" "n \<noteq> Dir"
  shows "\<And>x m. x \<noteq> src \<Longrightarrow> lookup (disk w) x = Some m
           \<Longrightarrow> m \<noteq> Link \<or> parent x \<noteq> dest_root @ [ext_key (path_name src)]
           \<Longrightarrow> lookup (disk w') x = Some m"
    and "\<exists>e. printed w' = printed w \<or> printed w' = printed w @ [e]"
proof -
  let ?b = "dest_root @ [ext_key (path_name src)]"
  have *: "(\<forall>x m. x \<noteq> src \<longrightarrow> lookup (disk w) x = Some m
              \<longrightarrow> m \<noteq> Link \<or> parent x \<noteq> ?b \<longrightarrow> lookup (disk w') x = Some m)
      \<and> (\<exists>e. printed w' = printed w \<or> printed w' = printed w @ [e])"
    using mf
  proof (cases rule: move_file_cases)
    case (mkdir_failed e fs1)
    then show ?thesis by (auto dest: mkdir_p_keeps)
  next
    case (skipped fs1)
    then show ?thesis by (auto dest: mkdir_p_keeps)
  next
    case (planned fs1)
    then show ?thesis by (auto dest: mkdir_p_keeps)
  next
    case (moved fs1 r2 fs2)
    let ?q = "safe_destination fs1 ?b (path_name src)"
    have l1: "lookup fs1 src = Some n" by (rule mkdir_p_keeps [OF moved(1) f(1)])
    have fresh: "\<not> path_exists fs1 ?q" by (rule safe_destination_fresh)
    have par: "butlast ?q = ?b" by (rule safe_destination_parent)
    have bd: "is_dir fs1 (butlast ?q)" unfolding par by (rule mkdir_p_is_dir [OF moved(1)])
    from shutil_move_file [OF l1 f(2) fresh bd] moved(4)
    have fs2: "fs2 = filter (\<lambda>(p, m). p \<noteq> src \<and> p \<noteq> ?q) fs1 @ [(?q, n)]" by simp
    have qne: "?q \<noteq> []" using par by (metis butlast.simps(1) snoc_eq_iff_butlast)
    have "\<And>x m. x \<noteq> src \<Longrightarrow> lookup (disk w) x = Some m
            \<Longrightarrow> m \<noteq> Link \<or> parent x \<noteq> ?b \<Longrightarrow> lookup (disk w') x = Some m"
    proof -
      fix x m assume x: "x \<noteq> src" and lx: "lookup (disk w) x = Some m"
        and nl: "m \<noteq> Link \<or> parent x \<noteq> ?b"
      have l1x: "lookup fs1 x = Some m" by (rule mkdir_p_keeps [OF moved(1) lx])
      with fresh nl par have "x \<noteq> ?q"
        by (auto simp: path_exists_def parent_def split: node.splits)
      with x l1x show "lookup (disk w') x = Some m"
        by (auto simp: moved(6) fs2 lookup_after_move [OF qne])
    qed
    with moved(7) show ?thesis by blast
  qed
  from * show "\<And>x m. x \<noteq> src \<Longrightarrow> lookup (disk w) x = Some m
           \<Longrightarrow> m \<noteq> Link \<or> parent x \<noteq> dest_root @ [ext_key (path_name src)]
           \<Longrightarrow> lookup (disk w') x = Some m"
    by blast
  from * show "\<exists>e. printed w' = printed w \<or> printed w' = printed w @ [e]" by blast
qed

subsection \<open>What \<open>iter_files\<close> yields\<close>

lemma prune_dirnames_distinct: "distinct ds \<Longrightarrow> distinct (prune_dirnames dest b t ds)"
  by (simp add: prune_dirnames_def)

lemma iter_files_sound:
  assumes "p \<in> set (iter_files fs root0 dest0 wd wc ce)"
  shows "\<exists>t ds fns. (t, ds, fns) \<in> set (os_walk fs
              (prune_dirnames (resolve dest0) (resolve dest0 = resolve root0)) (resolve root0))
            \<and> butlast p = t \<and> p \<noteq> [] \<and> last p \<in> set (filenames fs t)"
    and "keep_file fs (resolve root0) (resolve dest0) (resolve dest0 = resolve root0) wd wc
           (extensions_or_default ce) p"
proof -
  from assms obtain t ds fns nm where
    v: "(t, ds, fns) \<in> set (os_walk fs
          (prune_dirnames (resolve dest0) (resolve dest0 = resolve root0)) (resolve root0))"
    and nm: "nm \<in> set fns" and p: "p = t @ [nm]"
    and k: "keep_file fs (resolve root0) (resolve dest0) (resolve dest0 = resolve root0) wd wc
           (extensions_or_default ce) p"
    by (auto simp: iter_files_def Let_def)
  from os_walk_visited [OF v] have "fns = filenames fs t" by simp
  with v nm p show "\<exists>t ds fns. (t, ds, fns) \<in> set (os_walk fs
              (prune_dirnames (resolve dest0) (resolve dest0 = resolve root0)) (resolve root0))
            \<and> butlast p = t \<and> p \<noteq> [] \<and> last p \<in> set (filenames fs t)"
    by (intro exI [of _ t] exI [of _ ds] exI [of _ fns]) simp
  from k show "keep_file fs (resolve root0) (resolve dest0) (resolve dest0 = resolve root0) wd wc
           (extensions_or_default ce) p" .
qed

lemma keep_file_is_file: "keep_file fs r d b wd wc ce p \<Longrightarrow> is_file fs p"
  by (auto simp: keep_file_def split: if_splits)

lemma is_file_lookup: "is_file fs p \<longleftrightarrow> (\<exists>c. lookup fs p = Some (File c))"
  by (auto simp: is_file_def split: option.splits node.splits)

lemma canonical_prefix: "''..'' \<notin> set p \<Longrightarrow> prefix q p \<Longrightarrow> ''..'' \<notin> set q"
  by (auto simp: prefix_def)

lemma resolve_bucket: "resolve (resolve d @ [ext_key nm]) = resolve d @ [ext_key nm]"
  by (rule resolve_canonical) (simp add: resolve_no_dotdot ext_key_not_dotdot [symmetric])

text \<open>A path that \<open>iter_files\<close> yields is not in its own bucket: \<open>move_file\<close> will not skip it.\<close>

lemma keep_file_not_in_bucket:
  assumes wf: "wf_fs fs"
    and k: "keep_file fs r (resolve d) (resolve d = r) wd wc ce p"
  shows "resolve (parent p) \<noteq> resolve (resolve d @ [ext_key (path_name p)])"
proof (cases "resolve d = r")
  case True
  with k show ?thesis by (auto simp: keep_file_def split: if_splits)
next
  case False
  from keep_file_is_file [OF k] obtain c where l: "lookup fs p = Some (File c)"
    by (auto simp: is_file_lookup)
  then have pne: "p \<noteq> []" by auto
  from wf_fs_parent(2) [OF wf l] have can: "''..'' \<notin> set p" .
  then have rp: "resolve p = p" by (rule resolve_canonical)
  have "''..'' \<notin> set (butlast p)" using can by (auto dest: in_set_butlastD)
  then have rpp: "resolve (parent p) = butlast p" by (simp add: parent_def resolve_canonical)
  from k False rp have np: "\<not> prefix (resolve d) p"
    by (auto simp: keep_file_def is_relative_to_path_def split: if_splits)
  show ?thesis
  proof
    assume "resolve (parent p) = resolve (resolve d @ [ext_key (path_name p)])"
    then have "butlast p = resolve d @ [ext_key (path_name p)]"
      by (simp add: rpp resolve_bucket)
    then have "prefix (resolve d) (butlast p)" by simp
    then have "prefix (resolve d) p" by (metis prefix_order.trans prefixeq_butlast)
    with np show False by simp
  qed
qed

lemma iter_files_distinct:
  assumes "distinct (map fst fs)"
  shows "distinct (iter_files fs root0 dest0 wd wc ce)"
proof -
  let ?e = "prune_dirnames (resolve dest0) (resolve dest0 = resolve root0)"
  let ?xs = "os_walk fs ?e (resolve root0)"
  let ?k = "keep_file fs (resolve root0) (resolve dest0) (resolve dest0 = resolve root0) wd wc
              (extensions_or_default ce)"
  let ?g = "\<lambda>(current_dir, dirs, names). filter ?k (map (\<lambda>nm. current_dir @ [nm]) names)"
  have d1: "distinct (map fst ?xs)"
    by (rule os_walk_distinct [OF assms]) (rule prune_dirnames_distinct)
  then have dx: "distinct ?xs" and inj: "inj_on fst (set ?xs)" by (simp_all add: distinct_map)
  have "distinct (concat (map ?g ?xs))"
  proof (rule distinct_concat_map [OF dx])
    fix x assume "x \<in> set ?xs"
    obtain t ds fns where x: "x = (t, ds, fns)" by (cases x) auto
    with \<open>x \<in> set ?xs\<close> have "(t, ds, fns) \<in> set ?xs" by simp
    then have "fns = filenames fs t" by (auto dest: os_walk_visited)
    then have "distinct fns" using assms by (simp add: distinct_filenames)
    then show "distinct (?g x)"
      by (auto simp: x distinct_map intro!: distinct_filter inj_onI)
  next
    fix x y assume xy: "x \<in> set ?xs" "y \<in> set ?xs" "x \<noteq> y"
    with inj have "fst x \<noteq> fst y" by (auto dest: inj_onD)
    then show "set (?g x) \<inter> set (?g y) = {}"
      by (cases x; cases y) auto
  qed
  then show ?thesis by (simp add: iter_files_def Let_def)
qed

lemma iter_files_complete:
  assumes wf: "wf_fs fs"
    and rd: "is_dir fs (resolve root0)"
    and l: "lookup fs p = Some (File c)"
    and pre: "strict_prefix (resolve root0) p"
    and k: "keep_file fs (resolve root0) (resolve dest0) (resolve dest0 = resolve root0) wd wc
              (extensions_or_default ce) p"
    and out: "resolve dest0 \<noteq> resolve root0 \<Longrightarrow> \<not> prefix (resolve dest0) p"
  shows "p \<in> set (iter_files fs root0 dest0 wd wc ce)"
proof -
  let ?r = "resolve root0" and ?d = "resolve dest0"
  let ?e = "prune_dirnames ?d (?d = ?r)"
  from pre obtain rel where p: "p = ?r @ rel" and rel: "rel \<noteq> []"
    by (auto simp: strict_prefix_def prefix_def)
  let ?t = "?r @ butlast rel"
  have bp: "butlast p = ?t" using p rel by (simp add: butlast_append)
  have pne: "p \<noteq> []" using p rel by simp
  from wf_fs_parent [OF wf l] have td: "is_dir fs ?t" and can: "''..'' \<notin> set p"
    by (simp_all add: bp)
  have "(?t, ?e ?t (dirnames fs ?t), filenames fs ?t) \<in> set (os_walk fs ?e ?r)"
  proof (rule os_walk_complete [OF wf rd _ td])
    fix r :: path and x :: string
    assume a: "prefix (r @ [x]) (butlast rel)" and x: "x \<in> set (dirnames fs (?r @ r))"
    have pp: "prefix (?r @ r @ [x]) p"
      using a unfolding p by (metis prefix_order.trans prefixeq_butlast same_prefix_prefix)
    then have "''..'' \<notin> set (?r @ r @ [x])" by (rule canonical_prefix [OF can])
    then have res: "resolve ((?r @ r) @ [x]) = ?r @ r @ [x]" by (simp add: resolve_canonical)
    show "x \<in> set (?e (?r @ r) (dirnames fs (?r @ r)))"
    proof (cases "?d = ?r")
      case True
      with x show ?thesis by (simp add: prune_dirnames_def)
    next
      case False
      from out [OF False] pp have "\<not> prefix ?d (?r @ r @ [x])"
        by (metis prefix_order.trans)
      with x False res show ?thesis
        by (auto simp: prune_dirnames_def is_relative_to_path_def)
    qed
  qed
  moreover have "last p \<in> set (filenames fs ?t)"
  proof -
    from l pne have "(p, File c) \<in> set fs" by (rule lookup_entry)
    moreover have "p = ?t @ [last p]" using bp pne by (metis append_butlast_last_id)
    ultimately show ?thesis by (auto simp: in_filenames)
  qed
  moreover have "p = ?t @ [last p]" using bp pne by (metis append_butlast_last_id)
  ultimately show ?thesis using k
    by (auto simp: iter_files_def Let_def intro!: bexI [of _ "(?t, ?e ?t (dirnames fs ?t), filenames fs ?t)"])
qed

subsection \<open>Well-formedness, and the loop over the candidates\<close>

lemma mkdir_p_preserves:
  assumes "P fs"
    and "\<And>g q. P g \<Longrightarrow> prefix q p \<Longrightarrow> lookup g q = None \<Longrightarrow> is_dir g (butlast q)
            \<Longrightarrow> P (g @ [(q, Dir)])"
    and "mkdir_p fs p = (r, fs')"
  shows "P fs'"
  using assms
proof (induction fs p arbitrary: r fs' rule: mkdir_p.induct)
  case (1 fs p)
  obtain r0 f0 where o: "os_mkdir fs p = (r0, f0)" by force
  note c = os_mkdir_cases [OF o]
  show ?case
  proof (cases r0)
    case (Inr u)
    with c o "1.prems"(3) have "fs' = fs @ [(p, Dir)]" "lookup fs p = None" "is_dir fs (butlast p)"
      by (auto simp: mkdir_p.simps [of fs p])
    with "1.prems"(1,2) show ?thesis by simp
  next
    case (Inl e)
    with c have f0: "f0 = fs" by auto
    show ?thesis
    proof (cases "(\<exists>q. e = FileNotFoundError q) \<and> p \<noteq> []")
      case True
      then obtain q where e: "e = FileNotFoundError q" and ne: "p \<noteq> []" by auto
      obtain r1 f1 where m: "mkdir_p fs (butlast p) = (r1, f1)" by force
      have step': "\<And>g q. P g \<Longrightarrow> prefix q (butlast p) \<Longrightarrow> lookup g q = None
            \<Longrightarrow> is_dir g (butlast q) \<Longrightarrow> P (g @ [(q, Dir)])"
        using "1.prems"(2) by (metis prefix_order.trans prefixeq_butlast)
      have p1: "P f1"
        by (rule "1.IH" [OF o [symmetric] Inl e ne, unfolded f0, OF "1.prems"(1) step' m])
      show ?thesis
      proof (cases r1)
        case (Inl e1)
        with "1.prems"(3) o f0 \<open>r0 = Inl e\<close> e ne m have "fs' = f1"
          by (simp add: mkdir_p.simps [of fs p])
        with p1 show ?thesis by simp
      next
        case (Inr u1)
        with "1.prems"(3) o f0 \<open>r0 = Inl e\<close> e ne m have l: "mkdir_leaf f1 p = (r, fs')"
          by (simp add: mkdir_p.simps [of fs p])
        from mkdir_leaf_cases [OF l] p1 "1.prems"(2) [of f1 p] show ?thesis by auto
      qed
    next
      case False
      with "1.prems"(3) o f0 Inl have "fs' = fs"
        by (cases e) (auto simp: mkdir_p.simps [of fs p] split: if_splits)
      with "1.prems"(1) show ?thesis by simp
    qed
  qed
qed

lemma wf_fs_add_dir:
  assumes wf: "wf_fs g" and can: "''..'' \<notin> set q"
    and fresh: "lookup g q = None" and pd: "is_dir g (butlast q)"
  shows "wf_fs (g @ [(q, Dir)])"
proof -
  from fresh have qne: "q \<noteq> []" by auto
  with fresh have nk: "q \<notin> fst ` set g"
    by (simp add: lookup_def map_of_eq_None_iff)
  have keep: "\<And>x. is_dir g x \<Longrightarrow> is_dir (g @ [(q, Dir)]) x"
    by (simp add: is_dir_def lookup_snoc)
  from wf nk have "distinct (map fst (g @ [(q, Dir)]))" by (simp add: wf_fs_def)
  moreover from wf have "list_all (\<lambda>(p, n). p \<noteq> [] \<and> ''..'' \<notin> set p
      \<and> is_dir (g @ [(q, Dir)]) (butlast p)) g"
    by (auto simp: wf_fs_def list_all_iff intro: keep)
  ultimately show ?thesis using qne can keep [OF pd] by (simp add: wf_fs_def)
qed

lemma mkdir_p_wf:
  assumes "wf_fs fs" and "''..'' \<notin> set p" and "mkdir_p fs p = (r, fs')"
  shows "wf_fs fs'"
proof (rule mkdir_p_preserves [where P = wf_fs, OF assms(1) _ assms(3)])
  fix g q assume "wf_fs g" "prefix q p" "lookup g q = None" "is_dir g (butlast q)"
  with assms(2) show "wf_fs (g @ [(q, Dir)])"
    by (intro wf_fs_add_dir) (auto dest: canonical_prefix)
qed

text \<open>The loop over the candidates.\<close>

lemma move_all_frame:
  assumes "move_all ps dest_root dry w = (r, w')"
    and "distinct ps"
    and "\<forall>p\<in>set ps. is_file (disk w) p"
    and "x \<notin> set ps" and "lookup (disk w) x = Some m"
    and "m \<noteq> Link \<or> (\<forall>p\<in>set ps. parent x \<noteq> dest_root @ [ext_key (path_name p)])"
  shows "lookup (disk w') x = Some m"
  using assms
proof (induction ps arbitrary: w)
  case Nil
  then show ?case by simp
next
  case (Cons p ps)
  obtain r1 w1 where mf: "move_file p dest_root dry w = (r1, w1)" by force
  from Cons.prems(3) obtain c where lp: "lookup (disk w) p = Some (File c)"
    by (auto simp: is_file_lookup)
  note fr = move_file_frame(1) [OF mf lp]
  from Cons.prems(4,5,6) have x1: "lookup (disk w1) x = Some m" by (intro fr) auto
  show ?case
  proof (cases r1)
    case (Inl e)
    with Cons.prems(1) mf x1 show ?thesis by simp
  next
    case (Inr q)
    with Cons.prems(1) mf have ma: "move_all ps dest_root dry w1 = (r, w')" by simp
    have "\<forall>p'\<in>set ps. is_file (disk w1) p'"
    proof
      fix p' assume "p' \<in> set ps"
      with Cons.prems(2,3) obtain c' where "p' \<noteq> p" "lookup (disk w) p' = Some (File c')"
        by (auto simp: is_file_lookup)
      then have "lookup (disk w1) p' = Some (File c')" by (intro fr) auto
      then show "is_file (disk w1) p'" by (auto simp: is_file_lookup)
    qed
    with Cons.IH [OF ma] Cons.prems(2,4,6) x1 show ?thesis by simp
  qed
qed

lemma move_all_live:
  assumes "move_all ps dest_root False w = (Inr u, w')"
    and "distinct ps"
    and "\<forall>p\<in>set ps. is_file (disk w) p
           \<and> resolve (parent p) \<noteq> resolve (dest_root @ [ext_key (path_name p)])"
  shows "\<exists>evs. printed w' = printed w @ evs \<and>
          (\<forall>p\<in>set ps. \<exists>q. Moving p q \<in> set evs
              \<and> parent q = dest_root @ [ext_key (path_name p)]
              \<and> lookup (disk w') q = lookup (disk w) p)"
  using assms
proof (induction ps arbitrary: w)
  case Nil
  then show ?case by simp
next
  case (Cons p ps)
  obtain r1 w1 where mf0: "move_file p dest_root False w = (r1, w1)" by force
  with Cons.prems(1) obtain q where mf: "move_file p dest_root False w = (Inr q, w1)"
    and ma: "move_all ps dest_root False w1 = (Inr u, w')"
    by (cases r1) auto
  from Cons.prems(3) obtain c where lp: "lookup (disk w) p = Some (File c)"
    and ns: "resolve (parent p) \<noteq> resolve (dest_root @ [ext_key (path_name p)])"
    by (auto simp: is_file_lookup)
  note live = move_file_live [OF mf ns lp]
  have keep: "\<And>x c'. x \<noteq> p \<Longrightarrow> lookup (disk w) x = Some (File c')
      \<Longrightarrow> lookup (disk w1) x = Some (File c')"
    by (rule live(5)) simp_all
  have rest: "\<forall>p'\<in>set ps. is_file (disk w1) p'
      \<and> resolve (parent p') \<noteq> resolve (dest_root @ [ext_key (path_name p')])"
  proof
    fix p' assume a: "p' \<in> set ps"
    with Cons.prems(2,3) obtain c' where "p' \<noteq> p" "lookup (disk w) p' = Some (File c')"
      by (auto simp: is_file_lookup)
    then have "lookup (disk w1) p' = Some (File c')" by (rule keep)
    with a Cons.prems(3) show "is_file (disk w1) p'
      \<and> resolve (parent p') \<noteq> resolve (dest_root @ [ext_key (path_name p')])"
      by (auto simp: is_file_lookup)
  qed
  from Cons.prems(2) have dps: "distinct ps" by simp
  from Cons.IH [OF ma dps rest] obtain evs1 where
    pr: "printed w' = printed w1 @ evs1"
    and ih: "\<forall>p'\<in>set ps. \<exists>q'. Moving p' q' \<in> set evs1
        \<and> parent q' = dest_root @ [ext_key (path_name p')]
        \<and> lookup (disk w') q' = lookup (disk w1) p'" by blast
  have qn: "q \<notin> set ps"
  proof
    assume "q \<in> set ps"
    with Cons.prems(3) have "is_file (disk w) q" by simp
    with live(2) show False by (auto simp: is_file_lookup path_exists_def)
  qed
  have lq: "lookup (disk w') q = Some (File c)"
    by (rule move_all_frame [OF ma dps _ qn]) (use rest live(3) in auto)
  let ?evs = "Moving p q # evs1"
  have "printed w' = printed w @ ?evs" by (simp add: pr live(6))
  moreover have "\<forall>p'\<in>set (p # ps). \<exists>q'. Moving p' q' \<in> set ?evs
        \<and> parent q' = dest_root @ [ext_key (path_name p')]
        \<and> lookup (disk w') q' = lookup (disk w) p'"
  proof
    fix p' assume "p' \<in> set (p # ps)"
    then consider "p' = p" | "p' \<in> set ps" "p' \<noteq> p" using Cons.prems(2) by auto
    then show "\<exists>q'. Moving p' q' \<in> set ?evs
        \<and> parent q' = dest_root @ [ext_key (path_name p')]
        \<and> lookup (disk w') q' = lookup (disk w) p'"
    proof cases
      case 1
      with live(1) lq lp show ?thesis by (intro exI [of _ q]) simp
    next
      case 2
      with ih obtain q' where q': "Moving p' q' \<in> set evs1"
        "parent q' = dest_root @ [ext_key (path_name p')]"
        "lookup (disk w') q' = lookup (disk w1) p'" by blast
      from 2 Cons.prems(3) obtain c' where "lookup (disk w) p' = Some (File c')"
        by (auto simp: is_file_lookup)
      with keep [OF 2(2) this] q' show ?thesis by (intro exI [of _ q']) simp
    qed
  qed
  ultimately show ?case by blast
qed

subsection \<open>A run of \<open>sort_files\<close>\<close>

text \<open>A run of \<open>sort_files\<close> that returns.\<close>

lemma sort_files_returns:
  assumes "sort_files config w = (Inr files, w')"
  obtains fs1 w1 w2 where
    "is_dir (disk w) (root_path config)"
    "mkdir_p (disk w) (destination_root config) = (Inr (), fs1)"
    "files = iter_files fs1 (root_path config) (destination_root config)
               (include_dotfiles config) (include_code config) None"
    "disk w1 = fs1"
    "printed w1 = (if \<not> dry_run config \<and> \<not> interactive config \<and> files \<noteq> []
                   then printed w @ [AboutToMove (length files)] else printed w)"
    "move_all files (destination_root config) (dry_run config) w1 = (Inr (), w2)"
    "disk w' = disk w2"
    "printed w' = printed w2 @ (if files = [] then [NoFiles]
         else [Done (dry_run config), Destination (destination_root config)])"
proof -
  let ?r = "root_path config" and ?d = "destination_root config"
  from assms have rd: "is_dir (disk w) ?r"
    by (auto simp: sort_files_def Let_def split: if_splits)
  obtain r1 fs1 where m: "mkdir_p (disk w) ?d = (r1, fs1)" by force
  with assms rd have r1: "r1 = Inr ()"
    by (cases r1) (auto simp: sort_files_def Let_def path_exists_def is_dir_def)
  let ?files = "iter_files fs1 ?r ?d (include_dotfiles config) (include_code config) None"
  have ex: "path_exists (disk w) ?r" using rd by (simp add: path_exists_def is_dir_def)
  show ?thesis
  proof (cases "?files = []")
    case True
    with assms rd ex m r1 have "files = []" "w' = say NoFiles (w\<lparr>disk := fs1\<rparr>)"
      by (auto simp: sort_files_def Let_def)
    with True rd m r1 show ?thesis
      by (intro that [of fs1 "w\<lparr>disk := fs1\<rparr>" "w\<lparr>disk := fs1\<rparr>"]) auto
  next
    case False
    let ?w1 = "if \<not> dry_run config \<and> \<not> interactive config
               then say (AboutToMove (length ?files)) (w\<lparr>disk := fs1\<rparr>) else w\<lparr>disk := fs1\<rparr>"
    obtain r2 w2 where ma: "move_all ?files ?d (dry_run config) ?w1 = (r2, w2)" by force
    with assms rd ex m r1 False have "r2 = Inr ()" "files = ?files"
      "w' = say (Destination ?d) (say (Done (dry_run config)) w2)"
      by (cases r2; auto simp: sort_files_def Let_def)+
    with rd m r1 ma False show ?thesis
      by (intro that [of fs1 ?w1 w2]) auto
  qed
qed

lemma root_path_resolved [simp]: "resolve (root_path config) = root_path config"
  by (simp add: root_path_def resolve_idem)

lemma destination_root_resolved [simp]:
  "resolve (destination_root config) = destination_root config"
  by (simp add: destination_root_def resolve_idem split: dest_spec.splits)

lemma destination_root_canonical: "''..'' \<notin> set (destination_root config)"
  by (metis destination_root_resolved resolve_no_dotdot)

lemma extensions_default [simp]: "extensions_or_default None = DEFAULT_CODE_EXTENSIONS"
  by (simp add: extensions_or_default_def)

text \<open>The candidates of a run, on the table the walk reads.\<close>

lemma candidates_ready:
  assumes wf: "wf_fs fs1"
    and files: "files = iter_files fs1 (root_path config) (destination_root config) wd wc ce"
  shows "distinct files"
    and "\<forall>p\<in>set files. is_file fs1 p
          \<and> resolve (parent p) \<noteq> resolve (destination_root config @ [ext_key (path_name p)])"
proof -
  from wf show "distinct files" unfolding files
    by (intro iter_files_distinct) (simp add: wf_fs_def)
  show "\<forall>p\<in>set files. is_file fs1 p
          \<and> resolve (parent p) \<noteq> resolve (destination_root config @ [ext_key (path_name p)])"
  proof
    fix p assume "p \<in> set files"
    then have k: "keep_file fs1 (root_path config) (resolve (destination_root config))
        (resolve (destination_root config) = root_path config) wd wc (extensions_or_default ce) p"
      unfolding files by (auto dest: iter_files_sound(2))
    from keep_file_not_in_bucket [OF wf k] keep_file_is_file [OF k]
    show "is_file fs1 p
          \<and> resolve (parent p) \<noteq> resolve (destination_root config @ [ext_key (path_name p)])"
      by simp
  qed
qed

text \<open>No candidate has the source root for its bucket.\<close>

lemma candidate_bucket_not_root:
  assumes wf: "wf_fs fs1"
    and c: "p \<in> set (iter_files fs1 (root_path config) (destination_root config) wd wc ce)"
  shows "root_path config \<noteq> destination_root config @ [e]"
proof
  let ?R = "root_path config" and ?D = "destination_root config"
  assume eq: "?R = ?D @ [e]"
  then have ne: "?D \<noteq> ?R" by (metis append_self_conv not_Cons_self2)
  from eq have dr: "prefix ?D ?R" by (metis prefixI)
  from iter_files_sound(1) [OF c] obtain t ds fns where
    v: "(t, ds, fns) \<in> set (os_walk fs1 (prune_dirnames (resolve ?D) (resolve ?D = resolve ?R))
          (resolve ?R))"
    and bp: "butlast p = t" by blast
  from os_walk_visited [OF v] have rt: "prefix ?R t" by simp
  have tp: "prefix t p" unfolding bp [symmetric] by (rule prefixeq_butlast)
  from dr rt tp have dp: "prefix ?D p" by (metis prefix_order.trans)
  from iter_files_sound(2) [OF c]
  have k: "keep_file fs1 ?R ?D (?D = ?R) wd wc (extensions_or_default ce) p" by simp
  from keep_file_is_file [OF k] obtain cc where l: "lookup fs1 p = Some (File cc)"
    by (auto simp: is_file_lookup)
  from wf_fs_parent(2) [OF wf l] have "resolve p = p" by (rule resolve_canonical)
  with k ne dp show False
    by (auto simp: keep_file_def is_relative_to_path_def split: if_splits)
qed


subsection \<open>What a run prints and what it leaves alone\<close>

lemma move_all_events:
  assumes "move_all ps dest_root dry w = (r, w')"
  shows "\<exists>evs. printed w' = printed w @ evs \<and>
     (\<forall>e\<in>set evs. \<exists>s q. s \<in> set ps \<and> (e = Moving s q \<or> e = DryRun s q \<or> e = Skipping s))"
  using assms
proof (induction ps arbitrary: w)
  case Nil
  then show ?case by simp
next
  case (Cons p ps)
  obtain r1 w1 where mf: "move_file p dest_root dry w = (r1, w1)" by force
  from mf have one: "\<exists>evs. printed w1 = printed w @ evs \<and>
     (\<forall>e\<in>set evs. \<exists>q. e = Moving p q \<or> e = DryRun p q \<or> e = Skipping p)"
    by (cases rule: move_file_cases) auto
  show ?case
  proof (cases r1)
    case (Inl e)
    with Cons.prems mf have "w' = w1" by simp
    with one show ?thesis by fastforce
  next
    case (Inr q)
    with Cons.prems mf have "move_all ps dest_root dry w1 = (r, w')" by simp
    from Cons.IH [OF this] obtain evs1 where e1: "printed w' = printed w1 @ evs1"
      "\<forall>e\<in>set evs1. \<exists>s q. s \<in> set ps \<and> (e = Moving s q \<or> e = DryRun s q \<or> e = Skipping s)"
      by blast
    from one obtain evs0 where e0: "printed w1 = printed w @ evs0"
      "\<forall>e\<in>set evs0. \<exists>q. e = Moving p q \<or> e = DryRun p q \<or> e = Skipping p" by blast
    have "printed w' = printed w @ (evs0 @ evs1)" by (simp add: e0 e1)
    moreover have "\<forall>e\<in>set (evs0 @ evs1). \<exists>s q. s \<in> set (p # ps)
        \<and> (e = Moving s q \<or> e = DryRun s q \<or> e = Skipping s)"
      using e0(2) e1(2) by fastforce
    ultimately show ?thesis by blast
  qed
qed

text \<open>Every way \<open>sort_files\<close> can end.\<close>

lemma sort_files_any:
  assumes "sort_files config w = (r, w')"
  shows "w' = w \<or>
    (\<exists>r1 fs1 w1 r2 w2.
        mkdir_p (disk w) (destination_root config) = (r1, fs1) \<and>
        disk w1 = fs1 \<and>
        (printed w1 = printed w \<or> (\<exists>n. printed w1 = printed w @ [AboutToMove n])) \<and>
        (w2 = w1 \<or>
         r1 = Inr () \<and>
         move_all (iter_files fs1 (root_path config) (destination_root config)
                     (include_dotfiles config) (include_code config) None)
           (destination_root config) (dry_run config) w1 = (r2, w2)) \<and>
        disk w' = disk w2 \<and>
        (printed w' = printed w2 \<or> printed w' = printed w2 @ [NoFiles] \<or>
         printed w' = printed w2 @ [Done (dry_run config), Destination (destination_root config)]))"
proof (cases "\<not> path_exists (disk w) (root_path config) \<or> \<not> is_dir (disk w) (root_path config)")
  case True
  with assms show ?thesis by (auto simp: sort_files_def Let_def)
next
  case False
  let ?R = "root_path config" and ?D = "destination_root config"
  obtain r1 fs1 where m: "mkdir_p (disk w) ?D = (r1, fs1)" by force
  let ?files = "iter_files fs1 ?R ?D (include_dotfiles config) (include_code config) None"
  let ?w1 = "if \<not> dry_run config \<and> \<not> interactive config
               then say (AboutToMove (length ?files)) (w\<lparr>disk := fs1\<rparr>) else w\<lparr>disk := fs1\<rparr>"
  obtain r2 w2 where ma: "move_all ?files ?D (dry_run config) ?w1 = (r2, w2)" by force
  show ?thesis
  proof (cases r1)
    case (Inl e)
    with assms False m have "w' = w\<lparr>disk := fs1\<rparr>"
      by (auto simp: sort_files_def Let_def)
    with m show ?thesis
      by (intro disjI2 exI [of _ r1] exI [of _ fs1] exI [of _ "w\<lparr>disk := fs1\<rparr>"]
          exI [of _ r2] exI [of _ "w\<lparr>disk := fs1\<rparr>"]) simp
  next
    case (Inr u)
    show ?thesis
    proof (cases "?files = []")
      case True
      with assms False m Inr have "w' = say NoFiles (w\<lparr>disk := fs1\<rparr>)"
        by (auto simp: sort_files_def Let_def)
      with m show ?thesis
        by (intro disjI2 exI [of _ r1] exI [of _ fs1] exI [of _ "w\<lparr>disk := fs1\<rparr>"]
            exI [of _ r2] exI [of _ "w\<lparr>disk := fs1\<rparr>"]) simp
    next
      case nonempty: False
      from assms False m Inr nonempty ma
      have "w' = w2 \<or> w' = say (Destination ?D) (say (Done (dry_run config)) w2)"
        by (cases r2) (auto simp: sort_files_def Let_def)
      with m ma Inr show ?thesis
        by (intro disjI2 exI [of _ r1] exI [of _ fs1] exI [of _ ?w1]
            exI [of _ r2] exI [of _ w2]) auto
    qed
  qed
qed

text \<open>What is not a candidate stays where it is, however the run ends, unless it is a
  link to nothing in the bucket of a candidate.\<close>

lemma sort_files_frame:
  assumes wf: "wf_fs (disk w)"
    and run: "sort_files config w = (r, w')"
    and x: "lookup (disk w) x = Some m"
    and nc: "\<And>fs1. x \<notin> set (iter_files fs1 (root_path config) (destination_root config)
                (include_dotfiles config) (include_code config) None)"
    and nl: "\<And>fs1 p. wf_fs fs1 \<Longrightarrow>
                p \<in> set (iter_files fs1 (root_path config) (destination_root config)
                           (include_dotfiles config) (include_code config) None) \<Longrightarrow>
                m \<noteq> Link \<or> parent x \<noteq> destination_root config @ [ext_key (path_name p)]"
  shows "lookup (disk w') x = Some m"
proof -
  let ?R = "root_path config" and ?D = "destination_root config"
  from sort_files_any [OF run] show ?thesis
  proof
    assume "w' = w"
    with x show ?thesis by simp
  next
    assume "\<exists>r1 fs1 w1 r2 w2.
        mkdir_p (disk w) ?D = (r1, fs1) \<and> disk w1 = fs1 \<and>
        (printed w1 = printed w \<or> (\<exists>n. printed w1 = printed w @ [AboutToMove n])) \<and>
        (w2 = w1 \<or> r1 = Inr () \<and>
         move_all (iter_files fs1 ?R ?D (include_dotfiles config) (include_code config) None)
           ?D (dry_run config) w1 = (r2, w2)) \<and>
        disk w' = disk w2 \<and>
        (printed w' = printed w2 \<or> printed w' = printed w2 @ [NoFiles] \<or>
         printed w' = printed w2 @ [Done (dry_run config), Destination ?D])"
    then obtain r1 fs1 w1 r2 w2 where
      m: "mkdir_p (disk w) ?D = (r1, fs1)" and d1: "disk w1 = fs1"
      and c: "w2 = w1 \<or> r1 = Inr () \<and>
         move_all (iter_files fs1 ?R ?D (include_dotfiles config) (include_code config) None)
           ?D (dry_run config) w1 = (r2, w2)"
      and d': "disk w' = disk w2" by blast
    have wf1: "wf_fs fs1" by (rule mkdir_p_wf [OF wf destination_root_canonical m])
    have x1: "lookup (disk w1) x = Some m" using mkdir_p_keeps [OF m x] d1 by simp
    from c show ?thesis
    proof
      assume "w2 = w1"
      with x1 d' show ?thesis by simp
    next
      assume a: "r1 = Inr () \<and>
         move_all (iter_files fs1 ?R ?D (include_dotfiles config) (include_code config) None)
           ?D (dry_run config) w1 = (r2, w2)"
      note ready = candidates_ready [OF wf1 refl, of config "include_dotfiles config"
          "include_code config" None]
      from ready(2) d1 have "\<forall>p\<in>set (iter_files fs1 ?R ?D (include_dotfiles config)
          (include_code config) None). is_file (disk w1) p" by simp
      moreover from nl [OF wf1]
      have "m \<noteq> Link \<or> (\<forall>p\<in>set (iter_files fs1 ?R ?D (include_dotfiles config)
          (include_code config) None). parent x \<noteq> ?D @ [ext_key (path_name p)])" by blast
      ultimately show ?thesis
        using move_all_frame [OF conjunct2 [OF a] ready(1) _ nc x1] d' by simp
    qed
  qed
qed

subsection \<open>The size of the walk\<close>

lemma wf_fs_ancestor:
  assumes wf: "wf_fs fs"
  shows "is_dir fs (a @ b) \<Longrightarrow> is_dir fs a"
proof (induction b rule: rev_induct)
  case Nil
  then show ?case by simp
next
  case (snoc x b)
  from snoc.prems have "lookup fs ((a @ b) @ [x]) = Some Dir" by (simp add: is_dir_def)
  from wf_fs_parent(1) [OF wf this] have "is_dir fs (a @ b)" by (simp add: butlast_append)
  then show ?case by (rule snoc.IH)
qed

lemma os_walk_length:
  assumes "distinct (map fst fs)"
    and "\<And>t ds. distinct ds \<Longrightarrow> distinct (edit t ds)"
  shows "length (os_walk fs edit topdir) \<le> Suc (length fs)"
proof -
  let ?ts = "map fst (os_walk fs edit topdir)"
  have d: "distinct ?ts" by (rule os_walk_distinct [OF assms])
  have "set ?ts \<subseteq> insert [] (fst ` set fs)"
  proof
    fix t assume "t \<in> set ?ts"
    then obtain ds fns where "(t, ds, fns) \<in> set (os_walk fs edit topdir)" by auto
    from os_walk_visited [OF this] have "is_dir fs t" by simp
    then show "t \<in> insert [] (fst ` set fs)"
      by (cases "t = []") (auto simp: is_dir_def dest!: lookup_entry intro: rev_image_eqI)
  qed
  then have "card (set ?ts) \<le> card (insert [] (fst ` set fs))"
    by (intro card_mono) simp_all
  also have "\<dots> \<le> Suc (card (fst ` set fs))" by (simp add: card_insert_le_m1 card_insert_if)
  also have "\<dots> \<le> Suc (length fs)"
    by (metis Suc_le_mono card_image_le card_length le_trans List.finite_set)
  finally have "card (set ?ts) \<le> Suc (length fs)" .
  moreover from d have "length (os_walk fs edit topdir) = card (set ?ts)"
    by (metis distinct_card length_map)
  ultimately show ?thesis by simp
qed

subsection \<open>Dry runs\<close>



text \<open>In a dry run the loop changes the filesystem only by the bucket directories it
  creates.\<close>

lemma move_all_dry_disk:
  assumes "move_all ps dest_root True w = (Inr u, w')"
    and "\<forall>p\<in>set ps. resolve (parent p) \<noteq> resolve (dest_root @ [ext_key (path_name p)])"
  shows "(\<forall>q n. lookup (disk w) q = Some n \<longrightarrow> lookup (disk w') q = Some n) \<and>
         (\<forall>q n. lookup (disk w') q = Some n \<longrightarrow> lookup (disk w) q = Some n \<or> n = Dir) \<and>
         (\<forall>p\<in>set ps. is_dir (disk w') (dest_root @ [ext_key (path_name p)]))"
  using assms
proof (induction ps arbitrary: w)
  case Nil
  then show ?case by simp
next
  case (Cons p ps)
  let ?b = "dest_root @ [ext_key (path_name p)]"
  obtain r1 w1 where mf: "move_file p dest_root True w = (r1, w1)" by force
  with Cons.prems(1) obtain t where r1: "r1 = Inr t"
    and ma: "move_all ps dest_root True w1 = (Inr u, w')"
    by (cases r1) auto
  from Cons.prems(2) have ns: "resolve (parent p) \<noteq> resolve ?b" by simp
  from mf r1 ns obtain fs1 where
    m: "mkdir_p (disk w) ?b = (Inr (), fs1)" and d1: "disk w1 = fs1"
    by (cases rule: move_file_cases) auto
  from Cons.prems(2) have "\<forall>p\<in>set ps.
      resolve (parent p) \<noteq> resolve (dest_root @ [ext_key (path_name p)])" by simp
  from Cons.IH [OF ma this]
  have k: "\<forall>q n. lookup (disk w1) q = Some n \<longrightarrow> lookup (disk w') q = Some n"
    and o: "\<forall>q n. lookup (disk w') q = Some n \<longrightarrow> lookup (disk w1) q = Some n \<or> n = Dir"
    and b: "\<forall>p\<in>set ps. is_dir (disk w') (dest_root @ [ext_key (path_name p)])"
    by blast+
  have k0: "\<forall>q n. lookup (disk w) q = Some n \<longrightarrow> lookup (disk w') q = Some n"
    using k d1 mkdir_p_keeps [OF m] by blast
  have o0: "\<forall>q n. lookup (disk w') q = Some n \<longrightarrow> lookup (disk w) q = Some n \<or> n = Dir"
    using o d1 mkdir_p_new [OF m] by blast
  have "is_dir (disk w1) ?b" using mkdir_p_is_dir [OF m] d1 by simp
  with k have "is_dir (disk w') ?b" by (simp add: is_dir_def)
  with b k0 o0 show ?case by simp
qed

section \<open>Examples\<close>

text \<open>
  A root \<open>/r\<close> with \<open>a.txt\<close>, \<open>b.TXT\<close>, \<open>.secret\<close>, \<open>notes.py\<close>, \<open>README.md\<close> and a
  second \<open>a.txt\<close> in a subdirectory, sorted with the command line's defaults.
\<close>

definition example_tree :: filesystem where
  "example_tree =
     [([''r''], Dir),
      ([''r'', ''a.txt''], File ''A''),
      ([''r'', ''b.TXT''], File ''B''),
      ([''r'', ''.secret''], File ''S''),
      ([''r'', ''notes.py''], File ''N''),
      ([''r'', ''README.md''], File ''R''),
      ([''r'', ''sub''], Dir),
      ([''r'', ''sub'', ''a.txt''], File ''A2'')]"

definition example_config :: SortConfig where
  "example_config =
     \<lparr>root = [''r''], dest_dir = Relative [''sorted_by_extension''],
      include_dotfiles = False, include_code = False, dry_run = False,
      interactive = False\<rparr>"

text \<open>
  A root \<open>/r\<close> whose destination \<open>/r/out\<close> already holds a sorted file, beside a sibling
  directory \<open>/r/out2\<close> whose name starts with the same characters.
\<close>

definition nested_tree :: filesystem where
  "nested_tree =
     [([''r''], Dir),
      ([''r'', ''out''], Dir),
      ([''r'', ''out'', ''txt''], Dir),
      ([''r'', ''out'', ''txt'', ''old.txt''], File ''O''),
      ([''r'', ''out2''], Dir),
      ([''r'', ''out2'', ''new.txt''], File ''N'')]"

text \<open>Two files named \<open>x.txt\<close> in different directories of one root.\<close>

definition twins_tree :: filesystem where
  "twins_tree =
     [([''r''], Dir),
      ([''r'', ''a''], Dir),
      ([''r'', ''a'', ''x.txt''], File ''first''),
      ([''r'', ''b''], Dir),
      ([''r'', ''b'', ''x.txt''], File ''second'')]"

text \<open>
  A destination \<open>/r/out\<close> whose \<open>txt\<close> bucket holds a symbolic link \<open>x.txt\<close> to a
  target that is gone, and a file \<open>x.txt\<close> to sort.
\<close>

definition dangling_tree :: filesystem where
  "dangling_tree =
     [([''r''], Dir),
      ([''r'', ''a''], Dir),
      ([''r'', ''a'', ''x.txt''], File ''first''),
      ([''r'', ''out''], Dir),
      ([''r'', ''out'', ''txt''], Dir),
      ([''r'', ''out'', ''txt'', ''x.txt''], Link)]"

text \<open>Two files named \<open>foo.\<close> (the name ends in a dot) in different directories.\<close>

definition dotted_tree :: filesystem where
  "dotted_tree =
     [([''r''], Dir),
      ([''r'', ''a''], Dir),
      ([''r'', ''a'', ''foo.''], File ''first''),
      ([''r'', ''b''], Dir),
      ([''r'', ''b'', ''foo.''], File ''second'')]"

text \<open>Sorting in place: the destination is the root itself.\<close>

definition in_place_config :: SortConfig where
  "in_place_config =
     \<lparr>root = [''r''], dest_dir = Relative [],
      include_dotfiles = False, include_code = False, dry_run = False,
      interactive = False\<rparr>"
subsection \<open>A second run in place\<close>

text \<open>Where the regular files are after a live move, and what the target is called.\<close>

lemma move_file_live_back:
  assumes mf: "move_file src dest_root False w = (Inr q, w')"
    and ns: "resolve (parent src) \<noteq> resolve (dest_root @ [ext_key (path_name src)])"
    and f: "lookup (disk w) src = Some n" "n \<noteq> Dir"
  shows "\<And>x m. lookup (disk w') x = Some m \<Longrightarrow> m \<noteq> Dir \<Longrightarrow>
            x = q \<or> (x \<noteq> src \<and> lookup (disk w) x = Some m)"
    and "path_name q = path_name src \<or>
         (\<exists>k. path_name q = bumped_name (stem (path_name src)) (path_suffix (path_name src)) k)"
proof -
  let ?b = "dest_root @ [ext_key (path_name src)]"
  from mf ns obtain fs1 r2 fs2 where
    m: "mkdir_p (disk w) ?b = (Inr (), fs1)"
    and s: "shutil_move fs1 src (safe_destination fs1 ?b (path_name src)) = (r2, fs2)"
    and r: "Inr q = (case r2 of Inl e \<Rightarrow> Inl e
              | Inr u \<Rightarrow> Inr (safe_destination fs1 ?b (path_name src)))"
    and d: "disk w' = fs2"
    by (cases rule: move_file_cases) auto
  let ?q = "safe_destination fs1 ?b (path_name src)"
  have l1: "lookup fs1 src = Some n" by (rule mkdir_p_keeps [OF m f(1)])
  have fresh: "\<not> path_exists fs1 ?q" by (rule safe_destination_fresh)
  have par: "butlast ?q = ?b" by (rule safe_destination_parent)
  have bd: "is_dir fs1 (butlast ?q)" unfolding par by (rule mkdir_p_is_dir [OF m])
  from shutil_move_file [OF l1 f(2) fresh bd] s
  have r2: "r2 = Inr ()" and fs2: "fs2 = filter (\<lambda>(p, m). p \<noteq> src \<and> p \<noteq> ?q) fs1 @ [(?q, n)]"
    by simp_all
  from r r2 have q: "q = ?q" by simp
  have qne: "?q \<noteq> []" using par by (metis butlast.simps(1) snoc_eq_iff_butlast)
  from safe_destination_cases [of fs1 ?b "path_name src"]
  show "path_name q = path_name src \<or>
         (\<exists>k. path_name q = bumped_name (stem (path_name src)) (path_suffix (path_name src)) k)"
    unfolding q by (auto simp: path_name_def)
  fix x m assume lx: "lookup (disk w') x = Some m" and md: "m \<noteq> Dir"
  show "x = q \<or> (x \<noteq> src \<and> lookup (disk w) x = Some m)"
  proof (cases "x = q")
    case True
    then show ?thesis by simp
  next
    case False
    with lx md have xs: "x \<noteq> src" and l1x: "lookup fs1 x = Some m"
      by (auto simp: d fs2 q lookup_after_move [OF qne] split: if_splits)
    from mkdir_p_new [OF m l1x] md have "lookup (disk w) x = Some m" by auto
    with xs show ?thesis by simp
  qed
qed

lemma keep_file_transfer:
  "keep_file fs r d b wd wc ce p \<Longrightarrow> is_file fs' p \<Longrightarrow> keep_file fs' r d b wd wc ce p"
  by (auto simp: keep_file_def split: if_splits)

lemma move_all_live_files:
  assumes "move_all ps dest_root False w = (Inr u, w')"
    and "distinct ps"
    and "\<forall>p\<in>set ps. is_file (disk w) p
           \<and> resolve (parent p) \<noteq> resolve (dest_root @ [ext_key (path_name p)])"
    and "lookup (disk w') x = Some n" and "n \<noteq> Dir"
  shows "(x \<notin> set ps \<and> lookup (disk w) x = Some n) \<or>
         (\<exists>p\<in>set ps. parent x = dest_root @ [ext_key (path_name p)] \<and>
            (path_name x = path_name p \<or>
             (\<exists>k. path_name x = bumped_name (stem (path_name p)) (path_suffix (path_name p)) k)))"
  using assms
proof (induction ps arbitrary: w)
  case Nil
  then show ?case by simp
next
  case (Cons p ps)
  obtain r1 w1 where mf0: "move_file p dest_root False w = (r1, w1)" by force
  with Cons.prems(1) obtain q where mf: "move_file p dest_root False w = (Inr q, w1)"
    and ma: "move_all ps dest_root False w1 = (Inr u, w')"
    by (cases r1) auto
  from Cons.prems(3) obtain c where lp: "lookup (disk w) p = Some (File c)"
    and ns: "resolve (parent p) \<noteq> resolve (dest_root @ [ext_key (path_name p)])"
    by (auto simp: is_file_lookup)
  note live = move_file_live [OF mf ns lp]
  have fd: "File c \<noteq> Dir" by simp
  note bk = move_file_live_back [OF mf ns lp fd]
  have keep: "\<And>x c'. x \<noteq> p \<Longrightarrow> lookup (disk w) x = Some (File c')
      \<Longrightarrow> lookup (disk w1) x = Some (File c')"
    by (rule live(5)) simp_all
  have rest: "\<forall>p'\<in>set ps. is_file (disk w1) p'
      \<and> resolve (parent p') \<noteq> resolve (dest_root @ [ext_key (path_name p')])"
  proof
    fix p' assume a: "p' \<in> set ps"
    with Cons.prems(2,3) obtain c' where "p' \<noteq> p" "lookup (disk w) p' = Some (File c')"
      by (auto simp: is_file_lookup)
    then have "lookup (disk w1) p' = Some (File c')" by (rule keep)
    with a Cons.prems(3) show "is_file (disk w1) p'
      \<and> resolve (parent p') \<noteq> resolve (dest_root @ [ext_key (path_name p')])"
      by (auto simp: is_file_lookup)
  qed
  from Cons.prems(2) have dps: "distinct ps" by simp
  from Cons.IH [OF ma dps rest Cons.prems(4,5)]
  show ?case
  proof
    assume a: "x \<notin> set ps \<and> lookup (disk w1) x = Some n"
    from bk(1) [OF conjunct2 [OF a] Cons.prems(5)]
    have "x = q \<or> (x \<noteq> p \<and> lookup (disk w) x = Some n)" .
    then show ?thesis
    proof
      assume "x = q"
      with live(1) bk(2) show ?thesis by auto
    next
      assume "x \<noteq> p \<and> lookup (disk w) x = Some n"
      with a show ?thesis by simp
    qed
  next
    assume "\<exists>p\<in>set ps. parent x = dest_root @ [ext_key (path_name p)] \<and>
            (path_name x = path_name p \<or>
             (\<exists>k. path_name x = bumped_name (stem (path_name p)) (path_suffix (path_name p)) k))"
    then show ?thesis by auto
  qed
qed

text \<open>
  Sorting in place twice. When no candidate of the first run has a name that ends in
  a dot, every file the first run moved rests in the bucket of its own extension, and
  every other file is filtered as before: the second run finds nothing to move.
\<close>

lemma in_place_second_run:
  assumes wf: "wf_fs (disk w)"
    and inplace: "destination_root config = root_path config"
    and live: "\<not> dry_run config"
    and run: "sort_files config w = (Inr files, w1)"
    and nd: "\<forall>p\<in>set files. path_name p = [] \<or> last (path_name p) \<noteq> CHR ''.''"
  shows "iter_files (disk w1) (root_path config) (destination_root config)
           (include_dotfiles config) (include_code config) None = []"
    and "sort_files config w1 = (Inr [], say NoFiles w1)"
proof -
  let ?R = "root_path config" and ?D = "destination_root config"
  let ?wd = "include_dotfiles config" and ?wc = "include_code config"
  from run obtain fs1 w0 w2 where
    rd: "is_dir (disk w) ?R"
    and m: "mkdir_p (disk w) ?D = (Inr (), fs1)"
    and files: "files = iter_files fs1 ?R ?D ?wd ?wc None"
    and d0: "disk w0 = fs1"
    and ma: "move_all files ?D (dry_run config) w0 = (Inr (), w2)"
    and d1: "disk w1 = disk w2"
    by (rule sort_files_returns)
  have wf1: "wf_fs fs1" by (rule mkdir_p_wf [OF wf destination_root_canonical m])
  have rd1: "is_dir fs1 ?R" using rd mkdir_p_keeps [OF m] by (simp add: is_dir_def)
  note ready = candidates_ready [OF wf1 files]
  from ma live have ma': "move_all files ?D False w0 = (Inr (), w2)" by simp
  have pre: "\<forall>p\<in>set files. is_file (disk w0) p
      \<and> resolve (parent p) \<noteq> resolve (?D @ [ext_key (path_name p)])"
    using ready(2) d0 by simp
  have none: "x \<notin> set (iter_files (disk w1) ?R ?D ?wd ?wc None)" for x
  proof
    assume x: "x \<in> set (iter_files (disk w1) ?R ?D ?wd ?wc None)"
    from iter_files_sound(2) [OF x]
    have k: "keep_file (disk w1) ?R ?D (?D = ?R) ?wd ?wc DEFAULT_CODE_EXTENSIONS x" by simp
    from iter_files_sound(1) [OF x] obtain t ds fns where
      v: "(t, ds, fns) \<in> set (os_walk (disk w1) (prune_dirnames ?D (?D = ?R)) ?R)"
      and bx: "butlast x = t" and xne: "x \<noteq> []" by auto
    from os_walk_visited [OF v] have "prefix ?R t" by simp
    then obtain z where z: "t = ?R @ z" by (auto simp: prefix_def)
    from bx xne have "x = t @ [last x]" by (metis append_butlast_last_id)
    with z have "x = ?R @ (z @ [last x])" by simp
    then have sp: "strict_prefix ?R x" by (metis strict_prefixI' append_is_Nil_conv neq_Nil_conv not_Cons_self2)
    from keep_file_is_file [OF k] obtain c where lx: "lookup (disk w1) x = Some (File c)"
      by (auto simp: is_file_lookup)
    then have lx2: "lookup (disk w2) x = Some (File c)" by (simp add: d1)
    have fd: "File c \<noteq> Dir" by simp
    from move_all_live_files [OF ma' ready(1) pre lx2 fd]
    show False
    proof
      assume a: "x \<notin> set files \<and> lookup (disk w0) x = Some (File c)"
      then have l1: "lookup fs1 x = Some (File c)" by (simp add: d0)
      from l1 have "is_file fs1 x" by (simp add: is_file_lookup)
      with k have "keep_file fs1 ?R ?D (?D = ?R) ?wd ?wc DEFAULT_CODE_EXTENSIONS x"
        by (rule keep_file_transfer)
      then have "x \<in> set files" unfolding files
        by (intro iter_files_complete [OF wf1 _ l1]) (use rd1 sp inplace in simp_all)
      with a show False by simp
    next
      assume "\<exists>p\<in>set files. parent x = ?D @ [ext_key (path_name p)] \<and>
            (path_name x = path_name p \<or>
             (\<exists>k. path_name x = bumped_name (stem (path_name p)) (path_suffix (path_name p)) k))"
      then obtain p where p: "p \<in> set files" "parent x = ?D @ [ext_key (path_name p)]"
        and nmx: "path_name x = path_name p \<or>
             (\<exists>k. path_name x = bumped_name (stem (path_name p)) (path_suffix (path_name p)) k)"
        by blast
      from nd p(1) have "path_name p = [] \<or> last (path_name p) \<noteq> CHR ''.''" by simp
      with nmx have "ext_key (path_name x) = ext_key (path_name p)"
        by (auto simp: ext_key_bumped)
      with p(2) have "parent x = ?D @ [ext_key (path_name x)]" by simp
      with k inplace show False by (simp add: keep_file_def split: if_splits)
    qed
  qed
  then show e: "iter_files (disk w1) ?R ?D ?wd ?wc None = []"
    by (metis last_in_set)
  have "\<forall>p\<in>set files. is_file (disk w0) p" using pre by simp
  moreover have "?R \<notin> set files"
  proof
    assume "?R \<in> set files"
    with pre rd1 d0 show False by (auto simp: is_file_lookup is_dir_def)
  qed
  moreover have "lookup (disk w0) ?R = Some Dir" using rd1 d0 by (simp add: is_dir_def)
  ultimately have "lookup (disk w2) ?R = Some Dir"
    using move_all_frame [OF ma' ready(1)] by blast
  then have rd2: "is_dir (disk w1) ?R" by (simp add: d1 is_dir_def)
  then have mk: "mkdir_p (disk w1) ?D = (Inr (), disk w1)"
    by (simp add: inplace mkdir_p_existing)
  from rd2 mk e show "sort_files config w1 = (Inr [], say NoFiles w1)"
    by (simp add: sort_files_def Let_def path_exists_def is_dir_def)

qed

subsection \<open>Where a live run puts a file\<close>

text \<open>
  A regular file below the source root that passes the filters of \<open>iter_files\<close> is in
  the bucket of its extension key after a live run that returns: it was there already
  and has not moved, or the run printed \<open>Moving\<close> for it and the target holds its
  content.
\<close>

lemma live_run_places:
  assumes wf: "wf_fs (disk w)"
    and run: "sort_files config w = (Inr files, w')"
    and live: "\<not> dry_run config"
    and f: "lookup (disk w) p = Some (File c)"
    and inside: "strict_prefix (root_path config) p"
    and dot: "include_dotfiles config \<or> \<not> startswith_dot (path_name p)"
    and code: "include_code config
                 \<or> lower (path_suffix (path_name p)) \<notin> set DEFAULT_CODE_EXTENSIONS"
    and readme: "\<not> (parent p = root_path config \<and> lower (path_name p) = ''readme.md'')"
    and dest: "destination_root config \<noteq> root_path config
                 \<Longrightarrow> \<not> prefix (destination_root config) p"
  shows "\<exists>q. parent q = destination_root config @ [ext_key (path_name p)]
            \<and> lookup (disk w') q = Some (File c)
            \<and> (q = p \<or> (\<exists>evs. printed w' = printed w @ evs \<and> Moving p q \<in> set evs))"
proof -
  let ?R = "root_path config" and ?D = "destination_root config"
  let ?b = "?D @ [ext_key (path_name p)]"
  from run obtain fs1 w1 w2 where
    rd: "is_dir (disk w) ?R"
    and m: "mkdir_p (disk w) ?D = (Inr (), fs1)"
    and files: "files = iter_files fs1 ?R ?D (include_dotfiles config) (include_code config) None"
    and d1: "disk w1 = fs1"
    and p1: "printed w1 = (if \<not> dry_run config \<and> \<not> interactive config \<and> files \<noteq> []
                   then printed w @ [AboutToMove (length files)] else printed w)"
    and ma: "move_all files ?D (dry_run config) w1 = (Inr (), w2)"
    and d': "disk w' = disk w2"
    and p': "printed w' = printed w2 @ (if files = [] then [NoFiles]
               else [Done (dry_run config), Destination ?D])"
    by (rule sort_files_returns)
  have wf1: "wf_fs fs1" by (rule mkdir_p_wf [OF wf destination_root_canonical m])
  have l1: "lookup fs1 p = Some (File c)" by (rule mkdir_p_keeps [OF m f])
  have rd1: "is_dir fs1 ?R" using rd mkdir_p_keeps [OF m] by (simp add: is_dir_def)
  from wf_fs_parent(2) [OF wf1 l1] have can: "''..'' \<notin> set p" .
  then have rp: "resolve p = p" by (rule resolve_canonical)
  have "''..'' \<notin> set (butlast p)" using can by (auto dest: in_set_butlastD)
  then have rpp: "resolve (parent p) = parent p" by (simp add: parent_def resolve_canonical)
  have rb: "resolve ?b = ?b" using resolve_bucket [of ?D "path_name p"] by simp
  note ready = candidates_ready [OF wf1 files]
  show ?thesis
  proof (cases "?D = ?R \<and> parent p = ?b")
    case True
    have nk: "\<not> keep_file fs1 ?R ?D (?D = ?R) (include_dotfiles config) (include_code config)
            DEFAULT_CODE_EXTENSIONS p"
      using True by (simp add: keep_file_def rpp rb)
    have "p \<notin> set files"
    proof
      assume "p \<in> set files"
      from iter_files_sound(2) [OF this [unfolded files]] nk show False by simp
    qed
    moreover have "\<forall>p\<in>set files. is_file (disk w1) p" using ready(2) d1 by simp
    moreover have "lookup (disk w1) p = Some (File c)" using l1 d1 by simp
    ultimately have "lookup (disk w2) p = Some (File c)"
      using move_all_frame [OF ma ready(1)] by blast
    with True d' show ?thesis by (intro exI [of _ p]) simp
  next
    case False
    have k: "keep_file fs1 ?R ?D (?D = ?R) (include_dotfiles config) (include_code config)
            DEFAULT_CODE_EXTENSIONS p"
      using False dot code readme dest l1
      by (auto simp: keep_file_def rpp rp rb is_relative_to_path_def is_file_lookup)
    have "p \<in> set files" unfolding files
      by (rule iter_files_complete [OF wf1 _ l1]) (use rd1 inside k dest in simp_all)
    moreover from ma live have "move_all files ?D False w1 = (Inr (), w2)" by simp
    from move_all_live [OF this ready(1)] ready(2) d1
    obtain evs where e: "printed w2 = printed w1 @ evs"
      and a: "\<forall>p\<in>set files. \<exists>q. Moving p q \<in> set evs
              \<and> parent q = ?D @ [ext_key (path_name p)]
              \<and> lookup (disk w2) q = lookup (disk w1) p" by auto
    ultimately obtain q where q: "Moving p q \<in> set evs" "parent q = ?b"
      "lookup (disk w2) q = lookup (disk w1) p" by blast
    from p1 p' e q(1) have "\<exists>evs'. printed w' = printed w @ evs' \<and> Moving p q \<in> set evs'"
      by (auto split: if_splits)
    with q l1 d1 d' show ?thesis by (intro exI [of _ q]) simp
  qed
qed


text \<open>What a run that returns has printed: the events of the loop are about candidates.\<close>

lemma sort_files_events:
  assumes "sort_files config w = (Inr files, w')"
  shows "\<exists>evs. printed w' = printed w @ evs \<and>
     (\<forall>s q. (Moving s q \<in> set evs \<or> DryRun s q \<in> set evs \<or> Skipping s \<in> set evs)
        \<longrightarrow> s \<in> set files)"
proof -
  from assms obtain fs1 w1 w2 where
    p1: "printed w1 = (if \<not> dry_run config \<and> \<not> interactive config \<and> files \<noteq> []
                   then printed w @ [AboutToMove (length files)] else printed w)"
    and ma: "move_all files (destination_root config) (dry_run config) w1 = (Inr (), w2)"
    and p': "printed w' = printed w2 @ (if files = [] then [NoFiles]
               else [Done (dry_run config), Destination (destination_root config)])"
    by (rule sort_files_returns)
  from move_all_events [OF ma] obtain e2 where
    e2: "printed w2 = printed w1 @ e2"
      "\<forall>e\<in>set e2. \<exists>s q. s \<in> set files \<and> (e = Moving s q \<or> e = DryRun s q \<or> e = Skipping s)"
    by blast
  let ?e1 = "if \<not> dry_run config \<and> \<not> interactive config \<and> files \<noteq> []
             then [AboutToMove (length files)] else []"
  let ?e3 = "if files = [] then [NoFiles]
             else [Done (dry_run config), Destination (destination_root config)]"
  have "printed w' = printed w @ (?e1 @ e2 @ ?e3)" using p1 e2(1) p' by simp
  moreover have "s \<in> set files"
    if "Moving s q \<in> set (?e1 @ e2 @ ?e3) \<or> DryRun s q \<in> set (?e1 @ e2 @ ?e3)
        \<or> Skipping s \<in> set (?e1 @ e2 @ ?e3)" for s q
  proof -
    from that have "Moving s q \<in> set e2 \<or> DryRun s q \<in> set e2 \<or> Skipping s \<in> set e2"
      by (auto split: if_splits)
    with e2(2) show ?thesis by auto
  qed
  ultimately show ?thesis by blast
qed


section \<open>The claims\<close>

subsection \<open>Every file reaches its bucket\<close>



subsection \<open>A dry run and the filesystem\<close>

text \<open>
  Claim C2 says that a dry run leaves the filesystem completely unchanged and creates
  no directory. What holds is less: a dry run on a well-formed filesystem that returns
  moves and removes nothing and adds no file, and it prints the source and target of
  every candidate; but \<open>sort_files\<close> creates the destination root and \<open>move_file\<close>
  creates the bucket of every candidate before either looks at \<open>dry_run\<close>, so these
  directories exist afterwards. The dry run of the example leaves two directories
  that were not there.
\<close>

theorem dry_run_creates_directories:
  assumes wf: "wf_fs (disk w)"
    and dry: "dry_run config"
    and run: "sort_files config w = (Inr files, w')"
  shows "(\<forall>q n. lookup (disk w) q = Some n \<longrightarrow> lookup (disk w') q = Some n) \<and>
         (\<forall>q n. lookup (disk w') q = Some n \<longrightarrow> lookup (disk w) q = Some n \<or> n = Dir) \<and>
         is_dir (disk w') (destination_root config) \<and>
         (\<forall>p\<in>set files. is_dir (disk w') (destination_root config @ [ext_key (path_name p)])) \<and>
         disk (snd (sort_files (example_config\<lparr>dry_run := True\<rparr>)
                      \<lparr>disk = example_tree, printed = []\<rparr>))
           = example_tree @ [([''r'', ''sorted_by_extension''], Dir),
                             ([''r'', ''sorted_by_extension'', ''txt''], Dir)]"
proof -
  let ?R = "root_path config" and ?D = "destination_root config"
  from run obtain fs1 w1 w2 where
    m: "mkdir_p (disk w) ?D = (Inr (), fs1)"
    and files: "files = iter_files fs1 ?R ?D (include_dotfiles config) (include_code config) None"
    and d1: "disk w1 = fs1"
    and ma: "move_all files ?D (dry_run config) w1 = (Inr (), w2)"
    and d': "disk w' = disk w2"
    by (rule sort_files_returns)
  have wf1: "wf_fs fs1" by (rule mkdir_p_wf [OF wf destination_root_canonical m])
  note ready = candidates_ready [OF wf1 files]
  from ma dry have ma': "move_all files ?D True w1 = (Inr (), w2)" by simp
  from ready(2) have ns: "\<forall>p\<in>set files.
      resolve (parent p) \<noteq> resolve (?D @ [ext_key (path_name p)])" by simp
  from move_all_dry_disk [OF ma' ns]
  have k: "\<forall>q n. lookup (disk w1) q = Some n \<longrightarrow> lookup (disk w2) q = Some n"
    and o: "\<forall>q n. lookup (disk w2) q = Some n \<longrightarrow> lookup (disk w1) q = Some n \<or> n = Dir"
    and b: "\<forall>p\<in>set files. is_dir (disk w2) (?D @ [ext_key (path_name p)])"
    by blast+
  have c1: "\<forall>q n. lookup (disk w) q = Some n \<longrightarrow> lookup (disk w') q = Some n"
    using k d1 d' mkdir_p_keeps [OF m] by simp
  have c2: "\<forall>q n. lookup (disk w') q = Some n \<longrightarrow> lookup (disk w) q = Some n \<or> n = Dir"
    using o d1 d' mkdir_p_new [OF m] by (metis (full_types))
  have "is_dir (disk w1) ?D" using mkdir_p_is_dir [OF m] d1 by simp
  with k d' have c3: "is_dir (disk w') ?D" by (simp add: is_dir_def)
  from b d' have c4: "\<forall>p\<in>set files. is_dir (disk w') (?D @ [ext_key (path_name p)])" by simp
  have c5: "disk (snd (sort_files (example_config\<lparr>dry_run := True\<rparr>)
                      \<lparr>disk = example_tree, printed = []\<rparr>))
           = example_tree @ [([''r'', ''sorted_by_extension''], Dir),
                             ([''r'', ''sorted_by_extension'', ''txt''], Dir)]" by code_simp
  show ?thesis by (intro conjI c1 c2 c3 c4 c5)
qed

theorem dry_run_creates_directories_witness:
  "wf_fs example_tree \<and>
   dry_run (example_config\<lparr>dry_run := True\<rparr>) \<and>
   sort_files (example_config\<lparr>dry_run := True\<rparr>) \<lparr>disk = example_tree, printed = []\<rparr>
     = (Inr [[''r'', ''a.txt''], [''r'', ''b.TXT''], [''r'', ''sub'', ''a.txt'']],
        \<lparr>disk = example_tree @ [([''r'', ''sorted_by_extension''], Dir),
                                ([''r'', ''sorted_by_extension'', ''txt''], Dir)],
          printed =
            [DryRun [''r'', ''a.txt''] [''r'', ''sorted_by_extension'', ''txt'', ''a.txt''],
             DryRun [''r'', ''b.TXT''] [''r'', ''sorted_by_extension'', ''txt'', ''b.TXT''],
             DryRun [''r'', ''sub'', ''a.txt''] [''r'', ''sorted_by_extension'', ''txt'', ''a.txt''],
             Done True, Destination [''r'', ''sorted_by_extension'']]\<rparr>) \<and>
   \<not> path_exists example_tree [''r'', ''sorted_by_extension''] \<and>
   is_dir (disk \<lparr>disk = example_tree @ [([''r'', ''sorted_by_extension''], Dir),
                                ([''r'', ''sorted_by_extension'', ''txt''], Dir)],
          printed =
            [DryRun [''r'', ''a.txt''] [''r'', ''sorted_by_extension'', ''txt'', ''a.txt''],
             DryRun [''r'', ''b.TXT''] [''r'', ''sorted_by_extension'', ''txt'', ''b.TXT''],
             DryRun [''r'', ''sub'', ''a.txt''] [''r'', ''sorted_by_extension'', ''txt'', ''a.txt''],
             Done True, Destination [''r'', ''sorted_by_extension'']]\<rparr>)
     (destination_root (example_config\<lparr>dry_run := True\<rparr>))"
proof -
  let ?c = "example_config\<lparr>dry_run := True\<rparr>"
  let ?w = "\<lparr>disk = example_tree, printed = []\<rparr>"
  have wf': "wf_fs example_tree" by code_simp
  then have wf: "wf_fs (disk ?w)" by simp
  have dry: "dry_run ?c" by code_simp
  have run: "sort_files ?c ?w
     = (Inr [[''r'', ''a.txt''], [''r'', ''b.TXT''], [''r'', ''sub'', ''a.txt'']],
        \<lparr>disk = example_tree @ [([''r'', ''sorted_by_extension''], Dir),
                                ([''r'', ''sorted_by_extension'', ''txt''], Dir)],
          printed =
            [DryRun [''r'', ''a.txt''] [''r'', ''sorted_by_extension'', ''txt'', ''a.txt''],
             DryRun [''r'', ''b.TXT''] [''r'', ''sorted_by_extension'', ''txt'', ''b.TXT''],
             DryRun [''r'', ''sub'', ''a.txt''] [''r'', ''sorted_by_extension'', ''txt'', ''a.txt''],
             Done True, Destination [''r'', ''sorted_by_extension'']]\<rparr>)"
    by code_simp
  have ne: "\<not> path_exists example_tree [''r'', ''sorted_by_extension'']" by code_simp
  note t = dry_run_creates_directories [OF wf dry run]
  show ?thesis by (intro conjI wf' dry run ne conjunct1 [OF conjunct2 [OF conjunct2 [OF t]]])
qed

subsection \<open>The destination tree is left out of the walk\<close>

text \<open>
  Claim C3. When the resolved destination root lies strictly inside the resolved source
  root, \<open>iter_files\<close> yields no path whose resolved form is the destination root or lies
  below it, and the walk enters no such directory. A directory is taken out of the walk
  exactly when the components of the destination root are the first components of its
  resolved path, so a sibling whose name only starts with the same characters stays in.
  On a well-formed filesystem the yielded paths themselves lie outside the destination
  tree, every directory of the source tree outside the destination tree is visited,
  each one once, and the walk yields at most one triple per table entry and one for
  the root. \<open>os_walk\<close> and \<open>iter_files\<close> are total functions: the recursion of the walk is
  well-founded on the depth left below the directory it has reached.
\<close>

theorem iter_files_skips_destination:
  assumes "strict_prefix (resolve root0) (resolve dest0)"
  shows
   "(\<forall>p\<in>set (iter_files fs root0 dest0 with_dotfiles with_code code_exts).
        \<not> is_relative_to_path (resolve p) (resolve dest0)) \<and>
    (\<forall>(t, ds, fns)\<in>set (os_walk fs (prune_dirnames (resolve dest0)
                                      (resolve dest0 = resolve root0)) (resolve root0)).
        \<not> is_relative_to_path (resolve t) (resolve dest0)) \<and>
    (\<forall>t ds d. d \<in> set (prune_dirnames (resolve dest0) (resolve dest0 = resolve root0) t ds)
        \<longleftrightarrow> d \<in> set ds \<and> \<not> prefix (resolve dest0) (resolve (t @ [d]))) \<and>
    (wf_fs fs \<longrightarrow>
       (\<forall>p\<in>set (iter_files fs root0 dest0 with_dotfiles with_code code_exts).
           \<not> prefix (resolve dest0) p) \<and>
       (\<forall>t. is_dir fs t \<and> prefix (resolve root0) t \<and> \<not> prefix (resolve dest0) t \<longrightarrow>
           t \<in> fst ` set (os_walk fs (prune_dirnames (resolve dest0)
                                        (resolve dest0 = resolve root0)) (resolve root0))) \<and>
       distinct (map fst (os_walk fs (prune_dirnames (resolve dest0)
                                        (resolve dest0 = resolve root0)) (resolve root0))) \<and>
       length (os_walk fs (prune_dirnames (resolve dest0)
                             (resolve dest0 = resolve root0)) (resolve root0))
         \<le> Suc (length fs))"
proof -
  let ?R = "resolve root0" and ?D = "resolve dest0"
  let ?e = "prune_dirnames ?D (?D = ?R)"
  from assms have ne: "?D \<noteq> ?R" and nr: "\<not> prefix ?D ?R"
    by (auto simp: strict_prefix_def)
  have prune: "d \<in> set (?e t ds) \<longleftrightarrow> d \<in> set ds \<and> \<not> prefix ?D (resolve (t @ [d]))" for t ds d
    using ne by (auto simp: prune_dirnames_def is_relative_to_path_def)
  have yielded: "\<not> is_relative_to_path (resolve p) ?D"
    if "p \<in> set (iter_files fs root0 dest0 with_dotfiles with_code code_exts)" for p
    using iter_files_sound(2) [OF that] ne by (auto simp: keep_file_def split: if_splits)
  have visited: "\<not> is_relative_to_path (resolve t) ?D"
    if v: "(t, ds, fns) \<in> set (os_walk fs ?e ?R)" for t ds fns
  proof (rule os_walk_invariant [where Q = "\<lambda>t. \<not> is_relative_to_path (resolve t) ?D", OF _ _ v])
    show "\<not> is_relative_to_path (resolve ?R) ?D"
      using nr by (simp add: is_relative_to_path_def resolve_idem)
  next
    fix t ds d assume "d \<in> set (?e t ds)"
    then show "\<not> is_relative_to_path (resolve (t @ [d])) ?D"
      by (simp add: prune is_relative_to_path_def)
  qed
  have wfpart: "(\<forall>p\<in>set (iter_files fs root0 dest0 with_dotfiles with_code code_exts).
           \<not> prefix ?D p) \<and>
       (\<forall>t. is_dir fs t \<and> prefix ?R t \<and> \<not> prefix ?D t \<longrightarrow> t \<in> fst ` set (os_walk fs ?e ?R)) \<and>
       distinct (map fst (os_walk fs ?e ?R)) \<and>
       length (os_walk fs ?e ?R) \<le> Suc (length fs)" if wf: "wf_fs fs"
  proof (intro conjI ballI allI impI)
    fix p assume p: "p \<in> set (iter_files fs root0 dest0 with_dotfiles with_code code_exts)"
    from iter_files_sound(2) [OF p] have "is_file fs p" by (rule keep_file_is_file)
    then obtain c where "lookup fs p = Some (File c)" by (auto simp: is_file_lookup)
    from wf_fs_parent(2) [OF wf this] have "resolve p = p" by (rule resolve_canonical)
    with yielded [OF p] show "\<not> prefix ?D p" by (simp add: is_relative_to_path_def)
  next
    fix t assume t: "is_dir fs t \<and> prefix ?R t \<and> \<not> prefix ?D t"
    then obtain rel where rel: "t = ?R @ rel" by (auto simp: prefix_def)
    from t have l: "lookup fs t = Some Dir" by (simp add: is_dir_def)
    from wf_fs_parent(2) [OF wf l] have can: "''..'' \<notin> set t" .
    from t rel have rd: "is_dir fs ?R" by (auto intro: wf_fs_ancestor [OF wf])
    have "(?R @ rel, ?e (?R @ rel) (dirnames fs (?R @ rel)), filenames fs (?R @ rel))
        \<in> set (os_walk fs ?e ?R)"
    proof (rule os_walk_complete [OF wf rd])
      show "is_dir fs (?R @ rel)" using t rel by simp
    next
      fix r :: path and x :: string
      assume a: "prefix (r @ [x]) rel" and x: "x \<in> set (dirnames fs (?R @ r))"
      then have pp: "prefix (?R @ r @ [x]) t" by (simp add: rel)
      then have "''..'' \<notin> set (?R @ r @ [x])" by (rule canonical_prefix [OF can])
      then have "resolve ((?R @ r) @ [x]) = ?R @ r @ [x]" by (simp add: resolve_canonical)
      moreover from pp t have "\<not> prefix ?D (?R @ r @ [x])" by (metis prefix_order.trans)
      ultimately show "x \<in> set (?e (?R @ r) (dirnames fs (?R @ r)))"
        using x by (simp add: prune)
    qed
    then show "t \<in> fst ` set (os_walk fs ?e ?R)" unfolding rel by (rule rev_image_eqI) simp
  next
    from wf have dk: "distinct (map fst fs)" by (simp add: wf_fs_def)
    show "distinct (map fst (os_walk fs ?e ?R))"
      by (rule os_walk_distinct [OF dk]) (rule prune_dirnames_distinct)
    show "length (os_walk fs ?e ?R) \<le> Suc (length fs)"
      by (rule os_walk_length [OF dk]) (rule prune_dirnames_distinct)
  qed
  from yielded visited prune wfpart show ?thesis by blast
qed

theorem iter_files_skips_destination_witness:
  "strict_prefix (resolve [''r'']) (resolve [''r'', ''out'']) \<and>
   wf_fs nested_tree \<and>
   iter_files nested_tree [''r''] [''r'', ''out''] False False None = [[''r'', ''out2'', ''new.txt'']] \<and>
   [''r'', ''out'', ''txt'', ''old.txt'']
      \<notin> set (iter_files nested_tree [''r''] [''r'', ''out''] False False None) \<and>
   [''r'', ''out2''] \<in> fst ` set (os_walk nested_tree
        (prune_dirnames (resolve [''r'', ''out'']) (resolve [''r'', ''out''] = resolve [''r'']))
        (resolve [''r''])) \<and>
   [''r'', ''out''] \<notin> fst ` set (os_walk nested_tree
        (prune_dirnames (resolve [''r'', ''out'']) (resolve [''r'', ''out''] = resolve [''r'']))
        (resolve [''r'']))"
proof -
  let ?R = "resolve [''r'']" and ?D = "resolve [''r'', ''out'']"
  let ?walk = "os_walk nested_tree (prune_dirnames ?D (?D = ?R)) ?R"
  let ?files = "iter_files nested_tree [''r''] [''r'', ''out''] False False None"
  have h: "strict_prefix ?R ?D" by code_simp
  note t = iter_files_skips_destination [OF h, of nested_tree False False None]
  have wf: "wf_fs nested_tree" by code_simp
  have ev: "?files = [[''r'', ''out2'', ''new.txt'']]" by code_simp
  have p1: "prefix ?D [''r'', ''out'', ''txt'', ''old.txt'']" by code_simp
  from t wf p1 have a: "[''r'', ''out'', ''txt'', ''old.txt''] \<notin> set ?files" by blast
  have d2: "is_dir nested_tree [''r'', ''out2''] \<and> prefix ?R [''r'', ''out2'']
      \<and> \<not> prefix ?D [''r'', ''out2'']" by code_simp
  from t wf d2 have b: "[''r'', ''out2''] \<in> fst ` set ?walk" by blast
  have "\<not> is_relative_to_path (resolve t) ?D" if "(t, ds, fns) \<in> set ?walk" for t ds fns
    using t that by blast
  moreover have "is_relative_to_path (resolve [''r'', ''out'']) ?D" by code_simp
  ultimately have c: "[''r'', ''out''] \<notin> fst ` set ?walk" by force
  from h wf ev a b c show ?thesis by blast
qed
subsection \<open>Names that do not collide\<close>

text \<open>
  Claim C4 says that the path \<open>safe_destination\<close> returns never refers to an existing
  file, so that a move never overwrites one. \<open>safe_destination\<close> asks \<open>Path.exists\<close>,
  which follows symbolic links: it returns \<open>bucket/name\<close> when \<open>Path.exists\<close> finds
  nothing there, and otherwise \<open>bucket/"stem (n)suffix"\<close> for the least \<open>n \<ge> 1\<close> at which
  \<open>Path.exists\<close> finds nothing. So a live \<open>move_file\<close> of a file leaves every other path
  for which \<open>Path.exists\<close> holds as it was, and the second of two files named \<open>x.txt\<close>
  is moved to \<open>x (1).txt\<close>. But a symbolic link whose target is gone is an entry for
  which \<open>Path.exists\<close> is false: \<open>safe_destination\<close> returns its path as a free name,
  against its own description ("a non-colliding destination path"), and the move puts
  the file in the place of the link.
\<close>

theorem safe_destination_takes_dangling_link:
  "(\<not> path_exists fs (bucket @ [nm]) \<longrightarrow> safe_destination fs bucket nm = bucket @ [nm]) \<and>
   (path_exists fs (bucket @ [nm]) \<longrightarrow>
      (\<exists>n\<ge>1. safe_destination fs bucket nm
                 = bucket @ [stem nm @ '' ('' @ str_nat n @ '')'' @ path_suffix nm]
          \<and> \<not> path_exists fs (bucket @ [stem nm @ '' ('' @ str_nat n @ '')'' @ path_suffix nm])
          \<and> (\<forall>k. 1 \<le> k \<and> k < n \<longrightarrow>
                path_exists fs
                  (bucket @ [stem nm @ '' ('' @ str_nat k @ '')'' @ path_suffix nm])))) \<and>
   \<not> path_exists fs (safe_destination fs bucket nm) \<and>
   (\<forall>src dest_root w r w' x m.
      move_file src dest_root False w = (r, w') \<longrightarrow> is_file (disk w) src \<longrightarrow>
      x \<noteq> src \<longrightarrow> lookup (disk w) x = Some m \<longrightarrow> m \<noteq> Link \<longrightarrow>
      lookup (disk w') x = Some m) \<and>
   (lookup fs (bucket @ [nm]) = Some Link \<longrightarrow> safe_destination fs bucket nm = bucket @ [nm]) \<and>
   (\<forall>src dest_root w q w' c.
      move_file src dest_root False w = (Inr q, w') \<longrightarrow>
      lookup (disk w) src = Some (File c) \<longrightarrow>
      resolve (parent src) \<noteq> resolve (dest_root @ [ext_key (path_name src)]) \<longrightarrow>
      lookup (disk w) (dest_root @ [ext_key (path_name src)] @ [path_name src]) = Some Link \<longrightarrow>
      q = dest_root @ [ext_key (path_name src)] @ [path_name src] \<and>
      lookup (disk w') q = Some (File c)) \<and>
   printed (snd (sort_files (example_config\<lparr>dest_dir := Relative [''out'']\<rparr>)
                   \<lparr>disk = twins_tree, printed = []\<rparr>))
     = [AboutToMove 2,
        Moving [''r'', ''a'', ''x.txt''] [''r'', ''out'', ''txt'', ''x.txt''],
        Moving [''r'', ''b'', ''x.txt''] [''r'', ''out'', ''txt'', ''x (1).txt''],
        Done False, Destination [''r'', ''out'']] \<and>
   sort_files (example_config\<lparr>dest_dir := Relative [''out'']\<rparr>)
       \<lparr>disk = dangling_tree, printed = []\<rparr>
     = (Inr [[''r'', ''a'', ''x.txt'']],
        \<lparr>disk = [([''r''], Dir), ([''r'', ''a''], Dir), ([''r'', ''out''], Dir),
                 ([''r'', ''out'', ''txt''], Dir),
                 ([''r'', ''out'', ''txt'', ''x.txt''], File ''first'')],
          printed = [AboutToMove 1,
                     Moving [''r'', ''a'', ''x.txt''] [''r'', ''out'', ''txt'', ''x.txt''],
                     Done False, Destination [''r'', ''out'']]\<rparr>)"
proof -
  have ex: "printed (snd (sort_files (example_config\<lparr>dest_dir := Relative [''out'']\<rparr>)
                   \<lparr>disk = twins_tree, printed = []\<rparr>))
     = [AboutToMove 2,
        Moving [''r'', ''a'', ''x.txt''] [''r'', ''out'', ''txt'', ''x.txt''],
        Moving [''r'', ''b'', ''x.txt''] [''r'', ''out'', ''txt'', ''x (1).txt''],
        Done False, Destination [''r'', ''out'']]"
    by code_simp
  have ex2: "sort_files (example_config\<lparr>dest_dir := Relative [''out'']\<rparr>)
       \<lparr>disk = dangling_tree, printed = []\<rparr>
     = (Inr [[''r'', ''a'', ''x.txt'']],
        \<lparr>disk = [([''r''], Dir), ([''r'', ''a''], Dir), ([''r'', ''out''], Dir),
                 ([''r'', ''out'', ''txt''], Dir),
                 ([''r'', ''out'', ''txt'', ''x.txt''], File ''first'')],
          printed = [AboutToMove 1,
                     Moving [''r'', ''a'', ''x.txt''] [''r'', ''out'', ''txt'', ''x.txt''],
                     Done False, Destination [''r'', ''out'']]\<rparr>)"
    by code_simp
  have frame: "\<forall>src dest_root w r w' x m.
      move_file src dest_root False w = (r, w') \<longrightarrow> is_file (disk w) src \<longrightarrow>
      x \<noteq> src \<longrightarrow> lookup (disk w) x = Some m \<longrightarrow> m \<noteq> Link \<longrightarrow>
      lookup (disk w') x = Some m"
  proof (intro allI impI)
    fix src dest_root w r w' x m
    assume mf: "move_file src dest_root False w = (r, w')" and "is_file (disk w) src"
      and x: "x \<noteq> src" "lookup (disk w) x = Some m" "m \<noteq> Link"
    then obtain c where "lookup (disk w) src = Some (File c)"
      by (auto simp: is_file_lookup)
    from move_file_frame(1) [OF mf this _ x(1,2)] x(3) show "lookup (disk w') x = Some m"
      by simp
  qed
  have link: "safe_destination g d n = d @ [n]" if "lookup g (d @ [n]) = Some Link" for g d n
    using that safe_destination_cases [of g d n] by (auto simp: path_exists_def)
  have taken: "\<forall>src dest_root w q w' c.
      move_file src dest_root False w = (Inr q, w') \<longrightarrow>
      lookup (disk w) src = Some (File c) \<longrightarrow>
      resolve (parent src) \<noteq> resolve (dest_root @ [ext_key (path_name src)]) \<longrightarrow>
      lookup (disk w) (dest_root @ [ext_key (path_name src)] @ [path_name src]) = Some Link \<longrightarrow>
      q = dest_root @ [ext_key (path_name src)] @ [path_name src] \<and>
      lookup (disk w') q = Some (File c)"
  proof (intro allI impI)
    fix src dest_root w q w' c
    assume mf: "move_file src dest_root False w = (Inr q, w')"
      and l: "lookup (disk w) src = Some (File c)"
      and ns: "resolve (parent src) \<noteq> resolve (dest_root @ [ext_key (path_name src)])"
      and lk: "lookup (disk w) (dest_root @ [ext_key (path_name src)] @ [path_name src])
                 = Some Link"
    let ?b = "dest_root @ [ext_key (path_name src)]"
    note live = move_file_live [OF mf ns l]
    from live(7) obtain fs1 where m: "mkdir_p (disk w) ?b = (Inr (), fs1)"
      and q: "q = safe_destination fs1 ?b (path_name src)" by auto
    from mkdir_p_keeps [OF m, of "?b @ [path_name src]" Link] lk
    have "lookup fs1 (?b @ [path_name src]) = Some Link" by simp
    then have "q = ?b @ [path_name src]" unfolding q by (rule link)
    moreover have "lookup (disk w') q = Some (File c)" by (rule live(3)) simp
    ultimately show "q = dest_root @ [ext_key (path_name src)] @ [path_name src] \<and>
      lookup (disk w') q = Some (File c)" by simp
  qed
  have lk: "lookup fs (bucket @ [nm]) = Some Link \<longrightarrow> safe_destination fs bucket nm = bucket @ [nm]"
    using link by blast
  from safe_destination_cases [of fs bucket nm]
  have c1: "\<not> path_exists fs (bucket @ [nm]) \<longrightarrow> safe_destination fs bucket nm = bucket @ [nm]"
    and c2: "path_exists fs (bucket @ [nm]) \<longrightarrow>
      (\<exists>n\<ge>1. safe_destination fs bucket nm
                 = bucket @ [stem nm @ '' ('' @ str_nat n @ '')'' @ path_suffix nm]
          \<and> \<not> path_exists fs (bucket @ [stem nm @ '' ('' @ str_nat n @ '')'' @ path_suffix nm])
          \<and> (\<forall>k. 1 \<le> k \<and> k < n \<longrightarrow>
                path_exists fs
                  (bucket @ [stem nm @ '' ('' @ str_nat k @ '')'' @ path_suffix nm])))"
    unfolding bumped_name_def by blast+
  have c3: "\<not> path_exists fs (safe_destination fs bucket nm)" by (rule safe_destination_fresh)
  show ?thesis by (intro conjI c1 c2 c3 frame lk taken ex ex2)
qed

theorem safe_destination_takes_dangling_link_witness:
  "lookup dangling_tree ([''r'', ''out'', ''txt''] @ [''x.txt'']) = Some Link \<and>
   safe_destination dangling_tree [''r'', ''out'', ''txt''] ''x.txt''
     = [''r'', ''out'', ''txt''] @ [''x.txt''] \<and>
   \<not> path_exists dangling_tree
        (safe_destination dangling_tree [''r'', ''out'', ''txt''] ''x.txt'') \<and>
   move_file [''r'', ''a'', ''x.txt''] [''r'', ''out''] False
       \<lparr>disk = dangling_tree, printed = []\<rparr>
     = (Inr [''r'', ''out'', ''txt'', ''x.txt''],
        \<lparr>disk = [([''r''], Dir), ([''r'', ''a''], Dir), ([''r'', ''out''], Dir),
                 ([''r'', ''out'', ''txt''], Dir),
                 ([''r'', ''out'', ''txt'', ''x.txt''], File ''first'')],
          printed = [Moving [''r'', ''a'', ''x.txt''] [''r'', ''out'', ''txt'', ''x.txt'']]\<rparr>) \<and>
   lookup (disk \<lparr>disk = [([''r''], Dir), ([''r'', ''a''], Dir), ([''r'', ''out''], Dir),
                 ([''r'', ''out'', ''txt''], Dir),
                 ([''r'', ''out'', ''txt'', ''x.txt''], File ''first'')],
          printed = [Moving [''r'', ''a'', ''x.txt''] [''r'', ''out'', ''txt'', ''x.txt'']]\<rparr>)
     [''r'', ''out'', ''txt'', ''x.txt''] = Some (File ''first'')"
proof -
  let ?w = "\<lparr>disk = dangling_tree, printed = []\<rparr>"
  let ?src = "[''r'', ''a'', ''x.txt'']"
  let ?w' = "\<lparr>disk = [([''r''], Dir), ([''r'', ''a''], Dir), ([''r'', ''out''], Dir),
                 ([''r'', ''out'', ''txt''], Dir),
                 ([''r'', ''out'', ''txt'', ''x.txt''], File ''first'')],
          printed = [Moving [''r'', ''a'', ''x.txt''] [''r'', ''out'', ''txt'', ''x.txt'']]\<rparr>"
  note t = safe_destination_takes_dangling_link
             [of dangling_tree "[''r'', ''out'', ''txt'']" "''x.txt''"]
  have h: "lookup dangling_tree ([''r'', ''out'', ''txt''] @ [''x.txt'']) = Some Link"
    by code_simp
  from t h have a: "safe_destination dangling_tree [''r'', ''out'', ''txt''] ''x.txt''
     = [''r'', ''out'', ''txt''] @ [''x.txt'']" by blast
  from t have b: "\<not> path_exists dangling_tree
        (safe_destination dangling_tree [''r'', ''out'', ''txt''] ''x.txt'')" by blast
  have m: "move_file ?src [''r'', ''out''] False ?w = (Inr [''r'', ''out'', ''txt'', ''x.txt''], ?w')"
    by code_simp
  have l: "lookup (disk ?w) ?src = Some (File ''first'')" by code_simp
  have ns: "resolve (parent ?src) \<noteq> resolve ([''r'', ''out''] @ [ext_key (path_name ?src)])"
    by code_simp
  have lk: "lookup (disk ?w) ([''r'', ''out''] @ [ext_key (path_name ?src)] @ [path_name ?src])
      = Some Link" by code_simp
  from t have "\<forall>src dest_root w q w' c.
      move_file src dest_root False w = (Inr q, w') \<longrightarrow>
      lookup (disk w) src = Some (File c) \<longrightarrow>
      resolve (parent src) \<noteq> resolve (dest_root @ [ext_key (path_name src)]) \<longrightarrow>
      lookup (disk w) (dest_root @ [ext_key (path_name src)] @ [path_name src]) = Some Link \<longrightarrow>
      q = dest_root @ [ext_key (path_name src)] @ [path_name src] \<and>
      lookup (disk w') q = Some (File c)" by blast
  with m l ns lk have c: "lookup (disk ?w') [''r'', ''out'', ''txt'', ''x.txt'']
      = Some (File ''first'')" by blast
  show ?thesis by (intro conjI h a b m c)
qed


subsection \<open>Running twice in place\<close>

text \<open>
  Claim C5 says that a second in-place run on the output of a first one moves nothing.
  For two files named \<open>foo.\<close> it does not hold. The name has no suffix, so both go to
  \<open>no_ext\<close>, the second as \<open>foo. (1)\<close>; that name has the suffix \<open>. (1)\<close>, so the second
  run does not find it in the bucket of its extension, yields it and moves it to the
  bucket named \<open> (1)\<close>.
\<close>

theorem second_in_place_run_moves_a_file:
  "sort_files in_place_config \<lparr>disk = dotted_tree, printed = []\<rparr>
     = (Inr [[''r'', ''a'', ''foo.''], [''r'', ''b'', ''foo.'']],
        \<lparr>disk = [([''r''], Dir), ([''r'', ''a''], Dir), ([''r'', ''b''], Dir),
                 ([''r'', ''no_ext''], Dir),
                 ([''r'', ''no_ext'', ''foo.''], File ''first''),
                 ([''r'', ''no_ext'', ''foo. (1)''], File ''second'')],
          printed = [AboutToMove 2,
                     Moving [''r'', ''a'', ''foo.''] [''r'', ''no_ext'', ''foo.''],
                     Moving [''r'', ''b'', ''foo.''] [''r'', ''no_ext'', ''foo. (1)''],
                     Done False, Destination [''r'']]\<rparr>) \<and>
   sort_files in_place_config
     \<lparr>disk = [([''r''], Dir), ([''r'', ''a''], Dir), ([''r'', ''b''], Dir),
              ([''r'', ''no_ext''], Dir),
              ([''r'', ''no_ext'', ''foo.''], File ''first''),
              ([''r'', ''no_ext'', ''foo. (1)''], File ''second'')],
       printed = []\<rparr>
     = (Inr [[''r'', ''no_ext'', ''foo. (1)'']],
        \<lparr>disk = [([''r''], Dir), ([''r'', ''a''], Dir), ([''r'', ''b''], Dir),
                 ([''r'', ''no_ext''], Dir),
                 ([''r'', ''no_ext'', ''foo.''], File ''first''),
                 ([''r'', '' (1)''], Dir),
                 ([''r'', '' (1)'', ''foo. (1)''], File ''second'')],
          printed = [AboutToMove 1,
                     Moving [''r'', ''no_ext'', ''foo. (1)''] [''r'', '' (1)'', ''foo. (1)''],
                     Done False, Destination [''r'']]\<rparr>)"
  by code_simp

theorem second_in_place_run_moves_a_file_witness:
  "fst (sort_files in_place_config
     \<lparr>disk = [([''r''], Dir), ([''r'', ''a''], Dir), ([''r'', ''b''], Dir),
              ([''r'', ''no_ext''], Dir),
              ([''r'', ''no_ext'', ''foo.''], File ''first''),
              ([''r'', ''no_ext'', ''foo. (1)''], File ''second'')],
       printed = []\<rparr>)
     = Inr [[''r'', ''no_ext'', ''foo. (1)'']] \<and>
   path_suffix ''foo.'' = [] \<and> path_suffix ''foo. (1)'' = ''. (1)''"
proof -
  have "path_suffix ''foo.'' = []" "path_suffix ''foo. (1)'' = ''. (1)''" by code_simp+
  with second_in_place_run_moves_a_file show ?thesis by simp
qed


subsection \<open>The root README\<close>

text \<open>
  Claim C6. Whatever the flags, a path whose name is \<open>readme.md\<close> in any letter case
  and whose parent directory is the source root is never yielded by \<open>iter_files\<close>, on any
  filesystem and for any destination. So a run of \<open>sort_files\<close> from that root, live or
  dry, prints no move and no planned move with this path as its source, and on a
  well-formed filesystem the path keeps its node however the run ends.
\<close>

theorem root_readme_is_never_moved:
  assumes "resolve (parent p) = resolve root0" and "lower (path_name p) = ''readme.md''"
  shows "p \<notin> set (iter_files fs root0 dest0 with_dotfiles with_code code_exts) \<and>
    (\<forall>config w r w'.
        root config = root0 \<longrightarrow> sort_files config w = (r, w') \<longrightarrow>
        (\<exists>evs. printed w' = printed w @ evs
               \<and> (\<forall>q. Moving p q \<notin> set evs \<and> DryRun p q \<notin> set evs)) \<and>
        (\<forall>n. wf_fs (disk w) \<longrightarrow> lookup (disk w) p = Some n \<longrightarrow> lookup (disk w') p = Some n))"
proof -
  have never: "p \<notin> set (iter_files g root0 d wd wc ce)" for g d wd wc ce
  proof
    assume "p \<in> set (iter_files g root0 d wd wc ce)"
    from iter_files_sound(2) [OF this] assms show False
      by (auto simp: keep_file_def split: if_splits)
  qed
  have run: "(\<exists>evs. printed w' = printed w @ evs
               \<and> (\<forall>q. Moving p q \<notin> set evs \<and> DryRun p q \<notin> set evs)) \<and>
        (\<forall>n. wf_fs (disk w) \<longrightarrow> lookup (disk w) p = Some n \<longrightarrow> lookup (disk w') p = Some n)"
    if c: "root config = root0" and s: "sort_files config w = (r, w')" for config w r w'
  proof
    let ?R = "root_path config" and ?D = "destination_root config"
    have nc: "p \<notin> set (iter_files g ?R ?D wd wc ce)" for g wd wc ce
    proof
      assume "p \<in> set (iter_files g ?R ?D wd wc ce)"
      from iter_files_sound(2) [OF this] assms c show False
        by (auto simp: keep_file_def root_path_def resolve_idem split: if_splits)
    qed
    show "\<forall>n. wf_fs (disk w) \<longrightarrow> lookup (disk w) p = Some n \<longrightarrow> lookup (disk w') p = Some n"
    proof (intro allI impI)
      fix n assume wf: "wf_fs (disk w)" and l: "lookup (disk w) p = Some n"
      from wf_fs_parent(2) [OF wf l] have "''..'' \<notin> set (butlast p)"
        by (auto dest: in_set_butlastD)
      with assms(1) c have pp: "parent p = ?R"
        by (simp add: parent_def resolve_canonical root_path_def)
      show "lookup (disk w') p = Some n"
      proof (rule sort_files_frame [OF wf s l nc])
        fix fs1 x
        assume "wf_fs fs1"
          and "x \<in> set (iter_files fs1 ?R ?D (include_dotfiles config) (include_code config) None)"
        from candidate_bucket_not_root [OF this] pp
        show "n \<noteq> Link \<or> parent p \<noteq> ?D @ [ext_key (path_name x)]" by simp
      qed
    qed
    from sort_files_any [OF s]
    show "\<exists>evs. printed w' = printed w @ evs
               \<and> (\<forall>q. Moving p q \<notin> set evs \<and> DryRun p q \<notin> set evs)"
    proof
      assume "w' = w"
      then show ?thesis by (intro exI [of _ "[]"]) simp
    next
      assume "\<exists>r1 fs1 w1 r2 w2.
        mkdir_p (disk w) ?D = (r1, fs1) \<and> disk w1 = fs1 \<and>
        (printed w1 = printed w \<or> (\<exists>n. printed w1 = printed w @ [AboutToMove n])) \<and>
        (w2 = w1 \<or> r1 = Inr () \<and>
         move_all (iter_files fs1 ?R ?D (include_dotfiles config) (include_code config) None)
           ?D (dry_run config) w1 = (r2, w2)) \<and>
        disk w' = disk w2 \<and>
        (printed w' = printed w2 \<or> printed w' = printed w2 @ [NoFiles] \<or>
         printed w' = printed w2 @ [Done (dry_run config), Destination ?D])"
      then obtain r1 fs1 w1 r2 w2 where
        p1: "printed w1 = printed w \<or> (\<exists>n. printed w1 = printed w @ [AboutToMove n])"
        and c: "w2 = w1 \<or> move_all (iter_files fs1 ?R ?D (include_dotfiles config)
                  (include_code config) None) ?D (dry_run config) w1 = (r2, w2)"
        and p': "printed w' = printed w2 \<or> printed w' = printed w2 @ [NoFiles] \<or>
           printed w' = printed w2 @ [Done (dry_run config), Destination ?D]" by blast
      from p1 obtain e1 where e1: "printed w1 = printed w @ e1"
        "\<forall>q. Moving p q \<notin> set e1 \<and> DryRun p q \<notin> set e1" by fastforce
      have "\<exists>e2. printed w2 = printed w1 @ e2 \<and> (\<forall>q. Moving p q \<notin> set e2 \<and> DryRun p q \<notin> set e2)"
        using c
      proof
        assume "w2 = w1"
        then show ?thesis by (intro exI [of _ "[]"]) simp
      next
        assume "move_all (iter_files fs1 ?R ?D (include_dotfiles config)
                  (include_code config) None) ?D (dry_run config) w1 = (r2, w2)"
        from move_all_events [OF this] nc show ?thesis by (metis event.inject(2,3) event.distinct(1,3,13))
      qed
      then obtain e2 where e2: "printed w2 = printed w1 @ e2"
        "\<forall>q. Moving p q \<notin> set e2 \<and> DryRun p q \<notin> set e2" by blast
      from p' obtain e3 where e3: "printed w' = printed w2 @ e3"
        "\<forall>q. Moving p q \<notin> set e3 \<and> DryRun p q \<notin> set e3" by fastforce
      show ?thesis
        using e1 e2 e3 by (intro exI [of _ "e1 @ e2 @ e3"]) simp
    qed
  qed
  from never run show ?thesis by blast
qed

theorem root_readme_is_never_moved_witness:
  "resolve (parent [''r'', ''README.md'']) = resolve [''r''] \<and>
   lower (path_name [''r'', ''README.md'']) = ''readme.md'' \<and>
   [''r'', ''README.md''] \<notin> set (iter_files example_tree [''r''] [''r''] True True None) \<and>
   wf_fs example_tree \<and>
   lookup example_tree [''r'', ''README.md''] = Some (File ''R'') \<and>
   lookup (disk (snd (sort_files (example_config\<lparr>include_dotfiles := True, include_code := True\<rparr>)
                        \<lparr>disk = example_tree, printed = []\<rparr>))) [''r'', ''README.md'']
     = Some (File ''R'')"
proof -
  let ?p = "[''r'', ''README.md'']"
  let ?c = "example_config\<lparr>include_dotfiles := True, include_code := True\<rparr>"
  let ?w = "\<lparr>disk = example_tree, printed = []\<rparr>"
  have h1: "resolve (parent ?p) = resolve [''r'']" by code_simp
  have h2: "lower (path_name ?p) = ''readme.md''" by code_simp
  note t = root_readme_is_never_moved [OF h1 h2]
  have wf: "wf_fs (disk ?w)" by code_simp
  have l: "lookup (disk ?w) ?p = Some (File ''R'')" by code_simp
  have r: "root ?c = [''r'']" by (simp add: example_config_def)
  have s: "sort_files ?c ?w = (fst (sort_files ?c ?w), snd (sort_files ?c ?w))" by simp
  from t have a: "?p \<notin> set (iter_files example_tree [''r''] [''r''] True True None)" by blast
  from t r s wf l have b: "lookup (disk (snd (sort_files ?c ?w))) ?p = Some (File ''R'')"
    by blast
  from h1 h2 a b wf l show ?thesis by simp
qed

subsection \<open>An invalid root\<close>

text \<open>
  Claim C7. When the source root does not exist or is not a directory, \<open>sort_files\<close>
  raises \<open>SystemExit\<close> (a non-zero exit status) before it has changed anything: the
  filesystem and the output are those it was started with, so no directory was
  created and no file was moved.
\<close>

theorem sort_files_invalid_root:
  assumes "\<not> path_exists (disk w) (root_path config) \<or> \<not> is_dir (disk w) (root_path config)"
  shows "sort_files config w = (Inl SystemExit, w)"
  using assms by (auto simp: sort_files_def Let_def)

theorem sort_files_invalid_root_witness:
  "\<not> is_dir [([''r''], File ''x'')] [''r''] \<and>
   sort_files \<lparr>root = [''r''], dest_dir = Relative [''sorted_by_extension''],
                include_dotfiles = False, include_code = False, dry_run = False,
                interactive = False\<rparr>
     \<lparr>disk = [([''r''], File ''x'')], printed = []\<rparr>
   = (Inl SystemExit, \<lparr>disk = [([''r''], File ''x'')], printed = []\<rparr>)"
proof -
  let ?c = "\<lparr>root = [''r''], dest_dir = Relative [''sorted_by_extension''],
                include_dotfiles = False, include_code = False, dry_run = False,
                interactive = False\<rparr>"
  let ?w = "\<lparr>disk = [([''r''], File ''x'')], printed = []\<rparr>"
  have h: "\<not> is_dir (disk ?w) (root_path ?c)" by code_simp
  then have "\<not> path_exists (disk ?w) (root_path ?c) \<or> \<not> is_dir (disk ?w) (root_path ?c)" ..
  from sort_files_invalid_root [OF this] h show ?thesis
    by (simp add: root_path_def resolve_def)
qed

subsection \<open>A candidate that has vanished\<close>

text \<open>
  Claim C8 says that a candidate that no longer exists when its move is attempted is
  skipped with a warning and the remaining candidates are processed. The loop of
  \<open>sort_files\<close> run on a filesystem from which the first of two candidates has gone
  shows otherwise: \<open>shutil.move\<close> raises \<open>FileNotFoundError\<close>, nothing catches it, and
  the second candidate is still where it was.
\<close>

theorem vanished_candidate_counterexample:
  "move_all [[''r'', ''a.txt''], [''r'', ''b.txt'']] [''r'', ''out''] False
     \<lparr>disk = [([''r''], Dir), ([''r'', ''b.txt''], File ''B'')], printed = []\<rparr>
   = (Inl (FileNotFoundError [''r'', ''a.txt'']),
      \<lparr>disk = [([''r''], Dir), ([''r'', ''b.txt''], File ''B''),
               ([''r'', ''out''], Dir), ([''r'', ''out'', ''txt''], Dir)],
        printed = [Moving [''r'', ''a.txt''] [''r'', ''out'', ''txt'', ''a.txt'']]\<rparr>)"
  by code_simp

text \<open>
  Claim C8, as amended. A live \<open>move_file\<close> of a path at which nothing is left, and
  which is not taken to be in its bucket already, raises: either the bucket cannot be
  created, or \<open>shutil.move\<close> fails after the bucket was created and the \<open>Moving\<close> line
  was printed, with \<open>FileNotFoundError\<close> for the source unless the source is an
  ancestor of its own bucket (\<open>mkdir\<close> has then made a directory of it). The loop of
  \<open>sort_files\<close> ends with that error, so no later candidate is processed; every path
  that existed keeps its node.
\<close>

theorem vanished_candidate_raises:
  assumes gone: "lookup (disk w) src = None"
    and ns: "resolve (parent src) \<noteq> resolve (dest_root @ [ext_key (path_name src)])"
  shows "\<exists>e w1. move_file src dest_root False w = (Inl e, w1)
      \<and> move_all (src # rest) dest_root False w = (Inl e, w1)
      \<and> (\<forall>x m. lookup (disk w) x = Some m \<longrightarrow> lookup (disk w1) x = Some m)
      \<and> (\<forall>fs1. mkdir_p (disk w) (dest_root @ [ext_key (path_name src)]) = (Inr (), fs1) \<longrightarrow>
               disk w1 = fs1 \<and>
               printed w1 = printed w @
                 [Moving src (safe_destination fs1 (dest_root @ [ext_key (path_name src)])
                                (path_name src))] \<and>
               (\<not> prefix src (dest_root @ [ext_key (path_name src)]) \<longrightarrow>
                  e = FileNotFoundError src))"
proof -
  let ?b = "dest_root @ [ext_key (path_name src)]"
  obtain r w1 where mf: "move_file src dest_root False w = (r, w1)" by force
  note ls = gone
  have "\<exists>e. r = Inl e
      \<and> (\<forall>x m. lookup (disk w) x = Some m \<longrightarrow> lookup (disk w1) x = Some m)
      \<and> (\<forall>fs1. mkdir_p (disk w) ?b = (Inr (), fs1) \<longrightarrow>
               disk w1 = fs1 \<and>
               printed w1 = printed w @ [Moving src (safe_destination fs1 ?b (path_name src))] \<and>
               (\<not> prefix src ?b \<longrightarrow> e = FileNotFoundError src))"
    using mf
  proof (cases rule: move_file_cases)
    case (mkdir_failed e fs1)
    then show ?thesis by (auto dest: mkdir_p_keeps)
  next
    case (skipped fs1)
    with ns show ?thesis by simp
  next
    case (planned fs1)
    then show ?thesis by simp
  next
    case (moved fs1 r2 fs2)
    let ?q = "safe_destination fs1 ?b (path_name src)"
    have fresh: "\<not> path_exists fs1 ?q" by (rule safe_destination_fresh)
    have par: "butlast ?q = ?b" by (rule safe_destination_parent)
    have nd: "\<not> is_dir fs1 ?q" using fresh by (auto simp: path_exists_def is_dir_def)
    have "\<exists>e. r2 = Inl e \<and> fs2 = fs1 \<and> (\<not> prefix src ?b \<longrightarrow> e = FileNotFoundError src)"
    proof (cases "lookup fs1 src")
      case None
      from shutil_move_missing [OF None fresh] moved(4) show ?thesis by simp
    next
      case (Some n)
      from mkdir_p_new [OF moved(1) Some] ls have n: "n = Dir" and pre: "prefix src ?b" by auto
      have "prefix ?b ?q" by (metis par prefixeq_butlast)
      with pre have "prefix src ?q" by (rule prefix_order.trans)
      with Some n nd moved(4) pre show ?thesis
        by (auto simp: shutil_move_def os_rename_def)
    qed
    then obtain e where e: "r2 = Inl e" "fs2 = fs1" "\<not> prefix src ?b \<longrightarrow> e = FileNotFoundError src"
      by blast
    have "\<forall>x m. lookup (disk w) x = Some m \<longrightarrow> lookup (disk w1) x = Some m"
      using moved(1,6) e(2) by (auto dest: mkdir_p_keeps)
    with moved e show ?thesis by auto
  qed
  then obtain e where e: "r = Inl e"
    and rest: "\<forall>x m. lookup (disk w) x = Some m \<longrightarrow> lookup (disk w1) x = Some m"
      "\<forall>fs1. mkdir_p (disk w) ?b = (Inr (), fs1) \<longrightarrow>
               disk w1 = fs1 \<and>
               printed w1 = printed w @ [Moving src (safe_destination fs1 ?b (path_name src))] \<and>
               (\<not> prefix src ?b \<longrightarrow> e = FileNotFoundError src)"
    by blast
  from mf e have "move_all (src # rest) dest_root False w = (Inl e, w1)" by simp
  with mf e rest show ?thesis by blast
qed

theorem vanished_candidate_raises_witness:
  "lookup [([''r''], Dir), ([''r'', ''b.txt''], File ''B'')] [''r'', ''a.txt''] = None \<and>
   resolve (parent [''r'', ''a.txt'']) \<noteq> resolve ([''r'', ''out''] @ [ext_key (path_name [''r'', ''a.txt''])]) \<and>
   (\<exists>e w1. move_all ([''r'', ''a.txt''] # [[''r'', ''b.txt'']]) [''r'', ''out''] False
              \<lparr>disk = [([''r''], Dir), ([''r'', ''b.txt''], File ''B'')], printed = []\<rparr>
            = (Inl e, w1)
          \<and> lookup (disk w1) [''r'', ''b.txt''] = Some (File ''B''))"
proof -
  let ?w = "\<lparr>disk = [([''r''], Dir), ([''r'', ''b.txt''], File ''B'')], printed = []\<rparr>"
  have h1: "lookup (disk ?w) [''r'', ''a.txt''] = None" by code_simp
  have h2: "resolve (parent [''r'', ''a.txt''])
      \<noteq> resolve ([''r'', ''out''] @ [ext_key (path_name [''r'', ''a.txt''])])" by code_simp
  have l: "lookup (disk ?w) [''r'', ''b.txt''] = Some (File ''B'')" by code_simp
  from vanished_candidate_raises [OF h1 h2, of "[[''r'', ''b.txt'']]"] l
  have "\<exists>e w1. move_all ([''r'', ''a.txt''] # [[''r'', ''b.txt'']]) [''r'', ''out''] False ?w
            = (Inl e, w1) \<and> lookup (disk w1) [''r'', ''b.txt''] = Some (File ''B'')"
    by blast
  with h1 h2 show ?thesis by simp
qed
subsection \<open>Hidden files without an extension\<close>

text \<open>
  Claim C9. A name that begins with a dot and has no other dot has no suffix, so its
  extension key is \<open>no_ext\<close>. Without \<open>include_dotfiles\<close> such a file is never yielded
  by \<open>iter_files\<close>, and a live run leaves it where it is. With \<open>include_dotfiles\<close> a live
  run on a well-formed filesystem that returns yields it exactly when it is not in
  the \<open>no_ext\<close> bucket already, and it is in the \<open>no_ext\<close> bucket afterwards, with its
  content: \<open>move_file\<close> puts it there, and the in-place rule of \<open>iter_files\<close> compares
  its directory with that bucket.
\<close>

theorem dotfile_goes_to_no_ext:
  assumes nm: "path_name p = CHR ''.'' # rest" and nd: "CHR ''.'' \<notin> set rest"
  shows "ext_key (path_name p) = ''no_ext'' \<and>
    (\<forall>fs root0 dest0 with_code exts.
        p \<notin> set (iter_files fs root0 dest0 False with_code exts)) \<and>
    (\<forall>dest_root w q w' c.
        move_file p dest_root False w = (Inr q, w') \<longrightarrow>
        resolve (parent p) \<noteq> resolve (dest_root @ [''no_ext'']) \<longrightarrow>
        lookup (disk w) p = Some (File c) \<longrightarrow>
        parent q = dest_root @ [''no_ext''] \<and> lookup (disk w') q = Some (File c)) \<and>
    (\<forall>config w files w' c.
        wf_fs (disk w) \<longrightarrow> sort_files config w = (Inr files, w') \<longrightarrow> \<not> dry_run config \<longrightarrow>
        lookup (disk w) p = Some (File c) \<longrightarrow> strict_prefix (root_path config) p \<longrightarrow>
        (destination_root config \<noteq> root_path config
           \<longrightarrow> \<not> prefix (destination_root config) p) \<longrightarrow>
        (p \<in> set files \<longleftrightarrow>
           include_dotfiles config \<and> parent p \<noteq> destination_root config @ [''no_ext'']) \<and>
        (include_dotfiles config \<longrightarrow>
           (\<exists>q. parent q = destination_root config @ [''no_ext'']
              \<and> lookup (disk w') q = Some (File c)
              \<and> (q = p \<or> (\<exists>evs. printed w' = printed w @ evs \<and> Moving p q \<in> set evs)))) \<and>
        (\<not> include_dotfiles config \<longrightarrow>
           lookup (disk w') p = Some (File c)
           \<and> (\<forall>evs q. printed w' = printed w @ evs \<longrightarrow> Moving p q \<notin> set evs)))"
proof -
  have k: "ext_key (path_name p) = ''no_ext''"
    using nm nd by (simp add: ext_key_leading_dot)
  have sd: "startswith_dot (path_name p)" using nm by (simp add: startswith_dot_def)
  have sf: "path_suffix (path_name p) = []"
    using nm nd by (simp add: path_suffix_def rfind_leading_dot)
  have nocode: "lower (path_suffix (path_name p)) \<notin> set DEFAULT_CODE_EXTENSIONS"
    by (simp add: sf lower_def DEFAULT_CODE_EXTENSIONS_def)
  have "lower (path_name p) = CHR ''.'' # lower rest"
    using nm lower_char_dot [of "CHR ''.''"] by (simp add: lower_def)
  then have noreadme: "lower (path_name p) \<noteq> ''readme.md''" by simp
  have never: "p \<notin> set (iter_files fs root0 dest0 False with_code exts)"
    for fs root0 dest0 with_code exts
  proof
    assume "p \<in> set (iter_files fs root0 dest0 False with_code exts)"
    from iter_files_sound(2) [OF this] sd show False
      by (auto simp: keep_file_def split: if_splits)
  qed
  have mv: "parent q = dest_root @ [''no_ext''] \<and> lookup (disk w') q = Some (File c)"
    if "move_file p dest_root False w = (Inr q, w')"
      and "resolve (parent p) \<noteq> resolve (dest_root @ [''no_ext''])"
      and "lookup (disk w) p = Some (File c)"
    for dest_root w q w' c
    using move_file_live(1,3) [OF that(1), of "File c"] that(2,3) by (simp add: k)
  have run: "(p \<in> set files \<longleftrightarrow>
           include_dotfiles config \<and> parent p \<noteq> destination_root config @ [''no_ext'']) \<and>
        (include_dotfiles config \<longrightarrow>
           (\<exists>q. parent q = destination_root config @ [''no_ext'']
              \<and> lookup (disk w') q = Some (File c)
              \<and> (q = p \<or> (\<exists>evs. printed w' = printed w @ evs \<and> Moving p q \<in> set evs)))) \<and>
        (\<not> include_dotfiles config \<longrightarrow>
           lookup (disk w') p = Some (File c)
           \<and> (\<forall>evs q. printed w' = printed w @ evs \<longrightarrow> Moving p q \<notin> set evs))"
    if wf: "wf_fs (disk w)" and run: "sort_files config w = (Inr files, w')"
      and live: "\<not> dry_run config" and f: "lookup (disk w) p = Some (File c)"
      and inside: "strict_prefix (root_path config) p"
      and dest: "destination_root config \<noteq> root_path config
                   \<longrightarrow> \<not> prefix (destination_root config) p"
    for config w files w' c
  proof -
    let ?R = "root_path config" and ?D = "destination_root config"
    let ?b = "?D @ [''no_ext'']"
    from run obtain fs1 where
      rd: "is_dir (disk w) ?R"
      and m: "mkdir_p (disk w) ?D = (Inr (), fs1)"
      and files: "files = iter_files fs1 ?R ?D (include_dotfiles config) (include_code config) None"
      by (rule sort_files_returns)
    have wf1: "wf_fs fs1" by (rule mkdir_p_wf [OF wf destination_root_canonical m])
    have l1: "lookup fs1 p = Some (File c)" by (rule mkdir_p_keeps [OF m f])
    have rd1: "is_dir fs1 ?R" using rd mkdir_p_keeps [OF m] by (simp add: is_dir_def)
    from wf_fs_parent(2) [OF wf1 l1] have can: "''..'' \<notin> set p" .
    then have rp: "resolve p = p" by (rule resolve_canonical)
    have "''..'' \<notin> set (butlast p)" using can by (auto dest: in_set_butlastD)
    then have rpp: "resolve (parent p) = parent p" by (simp add: parent_def resolve_canonical)
    have rb: "resolve ?b = ?b" using resolve_bucket [of ?D "path_name p"] by (simp add: k)
    note ready = candidates_ready [OF wf1 files]
    have yielded: "p \<in> set files \<longleftrightarrow> include_dotfiles config \<and> parent p \<noteq> ?b"
    proof
      assume a: "p \<in> set files"
      from iter_files_sound(2) [OF a [unfolded files]] sd have "include_dotfiles config"
        by (auto simp: keep_file_def split: if_splits)
      moreover from ready(2) a have "parent p \<noteq> ?b" by (auto simp: k rpp rb)
      ultimately show "include_dotfiles config \<and> parent p \<noteq> ?b" by simp
    next
      assume a: "include_dotfiles config \<and> parent p \<noteq> ?b"
      have kf: "keep_file fs1 ?R ?D (?D = ?R) (include_dotfiles config) (include_code config)
            DEFAULT_CODE_EXTENSIONS p"
        using a nocode noreadme dest l1
        by (auto simp: keep_file_def k rpp rp rb is_relative_to_path_def is_file_lookup)
      show "p \<in> set files" unfolding files
        by (rule iter_files_complete [OF wf1 _ l1]) (use rd1 inside kf dest in simp_all)
    qed
    have with_dotfiles: "\<exists>q. parent q = ?b \<and> lookup (disk w') q = Some (File c)
              \<and> (q = p \<or> (\<exists>evs. printed w' = printed w @ evs \<and> Moving p q \<in> set evs))"
      if wd: "include_dotfiles config"
    proof -
      from wd have dot: "include_dotfiles config \<or> \<not> startswith_dot (path_name p)" by simp
      from nocode have code: "include_code config
          \<or> lower (path_suffix (path_name p)) \<notin> set DEFAULT_CODE_EXTENSIONS" by simp
      from noreadme have readme: "\<not> (parent p = ?R \<and> lower (path_name p) = ''readme.md'')"
        by simp
      from dest have dest': "?D \<noteq> ?R \<Longrightarrow> \<not> prefix ?D p" by simp
      from live_run_places [OF wf run live f inside dot code readme dest']
      show ?thesis by (simp add: k)
    qed
    have without: "lookup (disk w') p = Some (File c)
           \<and> (\<forall>evs q. printed w' = printed w @ evs \<longrightarrow> Moving p q \<notin> set evs)"
      if nwd: "\<not> include_dotfiles config"
    proof
      have nc: "p \<notin> set (iter_files g ?R ?D (include_dotfiles config) (include_code config) None)"
        for g using never [of g ?R ?D "include_code config" None] nwd by simp
      show "lookup (disk w') p = Some (File c)"
        by (rule sort_files_frame [OF wf run f nc]) simp
      from sort_files_events [OF run] obtain evs0 where
        e0: "printed w' = printed w @ evs0"
          "\<forall>s q. (Moving s q \<in> set evs0 \<or> DryRun s q \<in> set evs0 \<or> Skipping s \<in> set evs0)
             \<longrightarrow> s \<in> set files" by blast
      from nc files have nf: "p \<notin> set files" by simp
      show "\<forall>evs q. printed w' = printed w @ evs \<longrightarrow> Moving p q \<notin> set evs"
      proof (intro allI impI)
        fix evs q assume "printed w' = printed w @ evs"
        with e0(1) have "evs = evs0" by simp
        with e0(2) nf show "Moving p q \<notin> set evs" by blast
      qed
    qed
    from yielded with_dotfiles without show ?thesis by blast
  qed
  from k never mv run show ?thesis by blast
qed

theorem dotfile_goes_to_no_ext_witness:
  "path_name [''r'', ''.secret''] = CHR ''.'' # ''secret'' \<and>
   CHR ''.'' \<notin> set ''secret'' \<and>
   ext_key (path_name [''r'', ''.secret'']) = ''no_ext'' \<and>
   [''r'', ''.secret'']
     \<notin> set (iter_files example_tree [''r''] [''r'', ''sorted_by_extension''] False False None) \<and>
   wf_fs example_tree \<and>
   include_dotfiles (example_config\<lparr>include_dotfiles := True\<rparr>) \<and>
   sort_files (example_config\<lparr>include_dotfiles := True\<rparr>)
       \<lparr>disk = example_tree, printed = []\<rparr>
     = (Inr [[''r'', ''a.txt''], [''r'', ''b.TXT''], [''r'', ''.secret''],
             [''r'', ''sub'', ''a.txt'']],
        \<lparr>disk =
           [([''r''], Dir), ([''r'', ''notes.py''], File ''N''),
            ([''r'', ''README.md''], File ''R''), ([''r'', ''sub''], Dir),
            ([''r'', ''sorted_by_extension''], Dir),
            ([''r'', ''sorted_by_extension'', ''txt''], Dir),
            ([''r'', ''sorted_by_extension'', ''txt'', ''a.txt''], File ''A''),
            ([''r'', ''sorted_by_extension'', ''txt'', ''b.TXT''], File ''B''),
            ([''r'', ''sorted_by_extension'', ''no_ext''], Dir),
            ([''r'', ''sorted_by_extension'', ''no_ext'', ''.secret''], File ''S''),
            ([''r'', ''sorted_by_extension'', ''txt'', ''a (1).txt''], File ''A2'')],
          printed =
            [AboutToMove 4,
             Moving [''r'', ''a.txt''] [''r'', ''sorted_by_extension'', ''txt'', ''a.txt''],
             Moving [''r'', ''b.TXT''] [''r'', ''sorted_by_extension'', ''txt'', ''b.TXT''],
             Moving [''r'', ''.secret''] [''r'', ''sorted_by_extension'', ''no_ext'', ''.secret''],
             Moving [''r'', ''sub'', ''a.txt'']
               [''r'', ''sorted_by_extension'', ''txt'', ''a (1).txt''],
             Done False, Destination [''r'', ''sorted_by_extension'']]\<rparr>) \<and>
   destination_root (example_config\<lparr>include_dotfiles := True\<rparr>)
     = [''r'', ''sorted_by_extension''] \<and>
   (\<exists>q. parent q = destination_root (example_config\<lparr>include_dotfiles := True\<rparr>) @ [''no_ext'']
      \<and> lookup (disk
        \<lparr>disk =
           [([''r''], Dir), ([''r'', ''notes.py''], File ''N''),
            ([''r'', ''README.md''], File ''R''), ([''r'', ''sub''], Dir),
            ([''r'', ''sorted_by_extension''], Dir),
            ([''r'', ''sorted_by_extension'', ''txt''], Dir),
            ([''r'', ''sorted_by_extension'', ''txt'', ''a.txt''], File ''A''),
            ([''r'', ''sorted_by_extension'', ''txt'', ''b.TXT''], File ''B''),
            ([''r'', ''sorted_by_extension'', ''no_ext''], Dir),
            ([''r'', ''sorted_by_extension'', ''no_ext'', ''.secret''], File ''S''),
            ([''r'', ''sorted_by_extension'', ''txt'', ''a (1).txt''], File ''A2'')],
          printed =
            [AboutToMove 4,
             Moving [''r'', ''a.txt''] [''r'', ''sorted_by_extension'', ''txt'', ''a.txt''],
             Moving [''r'', ''b.TXT''] [''r'', ''sorted_by_extension'', ''txt'', ''b.TXT''],
             Moving [''r'', ''.secret''] [''r'', ''sorted_by_extension'', ''no_ext'', ''.secret''],
             Moving [''r'', ''sub'', ''a.txt'']
               [''r'', ''sorted_by_extension'', ''txt'', ''a (1).txt''],
             Done False, Destination [''r'', ''sorted_by_extension'']]\<rparr>) q
          = Some (File ''S'')
      \<and> (q = [''r'', ''.secret''] \<or>
          (\<exists>evs. printed
        \<lparr>disk =
           [([''r''], Dir), ([''r'', ''notes.py''], File ''N''),
            ([''r'', ''README.md''], File ''R''), ([''r'', ''sub''], Dir),
            ([''r'', ''sorted_by_extension''], Dir),
            ([''r'', ''sorted_by_extension'', ''txt''], Dir),
            ([''r'', ''sorted_by_extension'', ''txt'', ''a.txt''], File ''A''),
            ([''r'', ''sorted_by_extension'', ''txt'', ''b.TXT''], File ''B''),
            ([''r'', ''sorted_by_extension'', ''no_ext''], Dir),
            ([''r'', ''sorted_by_extension'', ''no_ext'', ''.secret''], File ''S''),
            ([''r'', ''sorted_by_extension'', ''txt'', ''a (1).txt''], File ''A2'')],
          printed =
            [AboutToMove 4,
             Moving [''r'', ''a.txt''] [''r'', ''sorted_by_extension'', ''txt'', ''a.txt''],
             Moving [''r'', ''b.TXT''] [''r'', ''sorted_by_extension'', ''txt'', ''b.TXT''],
             Moving [''r'', ''.secret''] [''r'', ''sorted_by_extension'', ''no_ext'', ''.secret''],
             Moving [''r'', ''sub'', ''a.txt'']
               [''r'', ''sorted_by_extension'', ''txt'', ''a (1).txt''],
             Done False, Destination [''r'', ''sorted_by_extension'']]\<rparr>
                 = printed \<lparr>disk = example_tree, printed = []\<rparr> @ evs
              \<and> Moving [''r'', ''.secret''] q \<in> set evs)))"
proof -
  let ?p = "[''r'', ''.secret'']"
  let ?c = "example_config\<lparr>include_dotfiles := True\<rparr>"
  let ?w = "\<lparr>disk = example_tree, printed = []\<rparr>"
  let ?files = "[[''r'', ''a.txt''], [''r'', ''b.TXT''], [''r'', ''.secret''],
             [''r'', ''sub'', ''a.txt'']]"
  let ?w' = "\<lparr>disk =
           [([''r''], Dir), ([''r'', ''notes.py''], File ''N''),
            ([''r'', ''README.md''], File ''R''), ([''r'', ''sub''], Dir),
            ([''r'', ''sorted_by_extension''], Dir),
            ([''r'', ''sorted_by_extension'', ''txt''], Dir),
            ([''r'', ''sorted_by_extension'', ''txt'', ''a.txt''], File ''A''),
            ([''r'', ''sorted_by_extension'', ''txt'', ''b.TXT''], File ''B''),
            ([''r'', ''sorted_by_extension'', ''no_ext''], Dir),
            ([''r'', ''sorted_by_extension'', ''no_ext'', ''.secret''], File ''S''),
            ([''r'', ''sorted_by_extension'', ''txt'', ''a (1).txt''], File ''A2'')],
          printed =
            [AboutToMove 4,
             Moving [''r'', ''a.txt''] [''r'', ''sorted_by_extension'', ''txt'', ''a.txt''],
             Moving [''r'', ''b.TXT''] [''r'', ''sorted_by_extension'', ''txt'', ''b.TXT''],
             Moving [''r'', ''.secret''] [''r'', ''sorted_by_extension'', ''no_ext'', ''.secret''],
             Moving [''r'', ''sub'', ''a.txt'']
               [''r'', ''sorted_by_extension'', ''txt'', ''a (1).txt''],
             Done False, Destination [''r'', ''sorted_by_extension'']]\<rparr>"
  have h1: "path_name ?p = CHR ''.'' # ''secret''" by (simp add: path_name_def)
  have h2: "CHR ''.'' \<notin> set ''secret''" by simp
  note t = dotfile_goes_to_no_ext [OF h1 h2]
  from t have k: "ext_key (path_name ?p) = ''no_ext''" by (rule conjunct1)
  from t have "\<forall>fs root0 dest0 with_code exts.
      ?p \<notin> set (iter_files fs root0 dest0 False with_code exts)"
    by (rule conjunct1 [OF conjunct2])
  then have never: "?p \<notin> set (iter_files example_tree [''r''] [''r'', ''sorted_by_extension'']
      False False None)" by blast
  have wf': "wf_fs example_tree" by code_simp
  then have wf: "wf_fs (disk ?w)" by simp
  have wd: "include_dotfiles ?c" by code_simp
  have run: "sort_files ?c ?w = (Inr ?files, ?w')" by code_simp
  have live: "\<not> dry_run ?c" by code_simp
  have f: "lookup (disk ?w) ?p = Some (File ''S'')" by code_simp
  have inside: "strict_prefix (root_path ?c) ?p" by code_simp
  have np: "\<not> prefix (destination_root ?c) ?p" by code_simp
  have dest: "destination_root ?c \<noteq> root_path ?c \<Longrightarrow> \<not> prefix (destination_root ?c) ?p"
    by (rule np)
  have d: "destination_root ?c = [''r'', ''sorted_by_extension'']" by code_simp
  note r = conjunct2 [OF conjunct2 [OF conjunct2 [OF t]], rule_format,
                      OF wf run live f inside dest]
  from conjunct1 [OF conjunct2 [OF r]] wd
  have placed: "\<exists>q. parent q = destination_root ?c @ [''no_ext'']
      \<and> lookup (disk ?w') q = Some (File ''S'')
      \<and> (q = ?p \<or> (\<exists>evs. printed ?w' = printed ?w @ evs \<and> Moving ?p q \<in> set evs))"
    by (rule mp)
  show ?thesis by (intro conjI h1 h2 k never wf' wd run d placed)
qed


subsection \<open>What a dry run reports\<close>



end
